theory Spec2Isabelle
  imports Main
begin

section \<open>The Azure driver: readers, writers and the handle table\<close>

text \<open>
  A shallow embedding of \<^verbatim>\<open>src/src/azureplugin.cpp\<close>. Every driver function takes the
  driver's global variables as a record and returns them updated; the object store is
  a value of its own, since the driver only reaches it through the Azure client.
\<close>

subsection \<open>Constants and 64-bit arithmetic\<close>

text \<open>
  \<^verbatim>\<open>tOffset\<close> and \<^verbatim>\<open>long long\<close> are signed 64-bit integers. They are modelled as
  \<^typ>\<open>int\<close>; the additions and subtractions of \<^verbatim>\<open>driver_fseek\<close> and
  \<^verbatim>\<open>driver_fread\<close>, which the code guards against overflow, are wrapped to 64 bits
  by \<open>wrap64\<close>.
\<close>

type_synonym tOffset = int
type_synonym byte = char

definition max_val :: int where
  "max_val = 9223372036854775807"

definition min_val :: int where
  "min_val = - 9223372036854775808"

definition wrap64 :: "int \<Rightarrow> int" where
  "wrap64 x = (x + 9223372036854775808) mod 18446744073709551616 - 9223372036854775808"

definition is_int64 :: "int \<Rightarrow> bool" where
  "is_int64 x \<longleftrightarrow> min_val \<le> x \<and> x \<le> max_val"

text \<open>
  The return codes are declared in \<^verbatim>\<open>azureplugin.h\<close>. \<^verbatim>\<open>kBadSize\<close> is \<open>-1\<close>: the
  repository's test compares the result of a failing \<^verbatim>\<open>driver_getFileSize\<close> with \<open>-1\<close>.
  The two results of \<^verbatim>\<open>driver_fclose\<close> are kept symbolic.
\<close>

definition kBadSize :: int where
  "kBadSize = - 1"

definition kFalse :: int where
  "kFalse = 0"

definition kTrue :: int where
  "kTrue = 1"

datatype close_code = kCloseSuccess | kCloseEOF

text \<open>
  The values of \<^verbatim>\<open>std::ios::beg\<close>, \<^verbatim>\<open>std::ios::cur\<close> and \<^verbatim>\<open>std::ios::end\<close> come from
  the C++ standard library; they are taken as 0, 1 and 2.
\<close>

definition ios_beg :: int where
  "ios_beg = 0"

definition ios_cur :: int where
  "ios_cur = 1"

definition ios_end :: int where
  "ios_end = 2"

subsection \<open>Readers, writers and the driver's globals\<close>

text \<open>
  \<^verbatim>\<open>Reader\<close> and \<^verbatim>\<open>Writer\<close> are declared in \<^verbatim>\<open>azureplugin_internal.h\<close>; the fields are
  the ones the source file reads and writes, named here \<open>rd_offset\<close> for \<^verbatim>\<open>offset_\<close>
  and so on. A writer's append client is determined by its bucket and object name.
\<close>

record Reader =
  rd_bucketname :: string
  rd_filename :: string
  rd_offset :: tOffset
  rd_commonHeaderLength :: tOffset
  rd_filenames :: "string list"
  rd_cumulativeSize :: "tOffset list"
  rd_total_size :: tOffset

record Writer =
  wr_bucketname :: string
  wr_filename :: string

text \<open>
  What \<^verbatim>\<open>LogError\<close> stores in \<^verbatim>\<open>lastError\<close>: a text, or a text followed by the decimal
  rendering of a number (\<^verbatim>\<open>std::to_string\<close>).
\<close>

datatype message = Msg string | MsgInt string int

text \<open>
  A handle is the address of the stream object owned by an entry of the handle vector;
  address 0 is the null pointer. Each vector is a list of (address, object) pairs in
  the vector's order.
\<close>

type_synonym handle = nat

record driver_state =
  bIsConnected :: int
  lastError :: message
  active_reader_handles :: "(handle \<times> Reader) list"
  active_writer_handles :: "(handle \<times> Writer) list"

definition LogError :: "message \<Rightarrow> driver_state \<Rightarrow> driver_state" where
  "LogError msg s = s\<lparr>lastError := msg\<rparr>"

text \<open>The message of \<^verbatim>\<open>ERROR_ON_NULL_ARG\<close>, which names the calling function.\<close>

definition null_arg_msg :: "string \<Rightarrow> message" where
  "null_arg_msg func = Msg (''Error passing null pointer to '' @ func)"

definition not_connected_msg :: message where
  "not_connected_msg = Msg ''Error: driver not connected.''"

subsection \<open>Looking up and removing handles\<close>

text \<open>
  \<^verbatim>\<open>FindHandle\<close> is \<^verbatim>\<open>std::find_if\<close> on the address: the position of the first entry
  that owns the object at \<open>h\<close>, or \<open>None\<close> for the end iterator.
\<close>

fun FindHandle :: "handle \<Rightarrow> (handle \<times> 'a) list \<Rightarrow> nat option" where
  "FindHandle h [] = None"
| "FindHandle h (p # ps) =
     (if h = fst p then Some 0 else map_option Suc (FindHandle h ps))"

definition FindReader :: "handle \<Rightarrow> driver_state \<Rightarrow> nat option" where
  "FindReader h s = FindHandle h (active_reader_handles s)"

definition FindWriter :: "handle \<Rightarrow> driver_state \<Rightarrow> nat option" where
  "FindWriter h s = FindHandle h (active_writer_handles s)"

text \<open>
  \<^verbatim>\<open>EraseRemove\<close>: the entry at \<open>pos\<close> takes over the last entry's pointer (its own
  object is destroyed), then the last entry is popped.
\<close>

definition EraseRemove :: "nat \<Rightarrow> (handle \<times> 'a) list \<Rightarrow> (handle \<times> 'a) list" where
  "EraseRemove pos handles = butlast (handles[pos := last handles])"

subsection \<open>Seeking\<close>

text \<open>
  The \<^verbatim>\<open>switch\<close> of \<^verbatim>\<open>driver_fseek\<close>: the computed offset, or the message logged before
  \<^verbatim>\<open>kBadSize\<close> is returned.
\<close>

definition seek_computed_offset :: "Reader \<Rightarrow> int \<Rightarrow> int \<Rightarrow> message + tOffset" where
  "seek_computed_offset reader offset whence =
     (if whence = ios_beg then Inr offset
      else if whence = ios_cur then
        (if offset > wrap64 (max_val - rd_offset reader)
         then Inl (Msg ''Signed overflow prevented'')
         else Inr (wrap64 (rd_offset reader + offset)))
      else if whence = ios_end then
        (if rd_total_size reader > 0 \<and> offset > wrap64 (max_val - wrap64 (rd_total_size reader - 1))
         then Inl (Msg ''Signed overflow prevented'')
         else if offset = min_val \<and> rd_total_size reader = 0
         then Inl (Msg ''Signed overflow prevented'')
         else Inr (if rd_total_size reader = 0 then offset
                   else wrap64 (wrap64 (rd_total_size reader - 1) + offset)))
      else Inl (MsgInt ''Invalid seek mode '' whence))"

definition set_reader_offset :: "nat \<Rightarrow> tOffset \<Rightarrow> driver_state \<Rightarrow> driver_state" where
  "set_reader_offset i off s =
     s\<lparr>active_reader_handles :=
         (active_reader_handles s)
           [i := (fst (active_reader_handles s ! i),
                  (snd (active_reader_handles s ! i))\<lparr>rd_offset := off\<rparr>)]\<rparr>"

definition driver_fseek :: "driver_state \<Rightarrow> handle \<Rightarrow> int \<Rightarrow> int \<Rightarrow> driver_state \<times> int" where
  "driver_fseek s stream offset whence =
     (if bIsConnected s = kFalse then (LogError not_connected_msg s, kBadSize)
      else if stream = 0 then (LogError (null_arg_msg ''driver_fseek'') s, kBadSize)
      else case FindReader stream s of
        None \<Rightarrow> (LogError (Msg ''Cannot identify stream as a reader stream.'') s, kBadSize)
      | Some i \<Rightarrow>
          (case seek_computed_offset (snd (active_reader_handles s ! i)) offset whence of
             Inl msg \<Rightarrow> (LogError msg s, kBadSize)
           | Inr computed_offset \<Rightarrow>
               if computed_offset < 0
               then (LogError (MsgInt ''Invalid seek offset '' computed_offset) s, kBadSize)
               else (set_reader_offset i computed_offset s, 0)))"

text \<open>The reader a handle resolves to, if it is an open reader.\<close>

definition resolve_reader :: "driver_state \<Rightarrow> handle \<Rightarrow> Reader option" where
  "resolve_reader s h =
     map_option (\<lambda>i. snd (active_reader_handles s ! i)) (FindReader h s)"

definition resolve_writer :: "driver_state \<Rightarrow> handle \<Rightarrow> Writer option" where
  "resolve_writer s h =
     map_option (\<lambda>i. snd (active_writer_handles s ! i)) (FindWriter h s)"

subsection \<open>Driver results and exceptions\<close>

text \<open>
  A failed \<^verbatim>\<open>DriverResult\<close> carries the status code and the reason phrase of its raw
  response; \<^verbatim>\<open>DriverResult<T>\<close> is \<open>failure + T\<close>. The Azure client throws a
  \<^verbatim>\<open>StorageException\<close> (status code and reason phrase) or another \<^verbatim>\<open>std::exception\<close>.
\<close>

datatype HttpStatusCode =
  HttpNone | BadRequest | NotFound | Conflict | RangeNotSatisfiable | OtherStatus nat

datatype failure = HttpFailure HttpStatusCode string

datatype exn = StorageException HttpStatusCode string | StdException string

fun MakeDriverFailureFromException :: "exn \<Rightarrow> failure" where
  "MakeDriverFailureFromException (StorageException code reason) = HttpFailure code reason"
| "MakeDriverFailureFromException (StdException what) = HttpFailure HttpNone what"

fun GetReasonPhrase :: "failure \<Rightarrow> string" where
  "GetReasonPhrase (HttpFailure code reason) = reason"

definition LogBadResult :: "failure \<Rightarrow> string \<Rightarrow> driver_state \<Rightarrow> driver_state" where
  "LogBadResult result msg s = LogError (Msg (msg @ '': '' @ GetReasonPhrase result)) s"

subsection \<open>The object store\<close>

text \<open>
  Modelled from the spec: the object store and the Azure client, which the driver
  only calls (spec section 6: \<^verbatim>\<open>ListObjects\<close>, \<^verbatim>\<open>GetObjectSize\<close>, \<^verbatim>\<open>DownloadRange\<close>, which
  "may return fewer bytes at end-of-object", and \<^verbatim>\<open>CreateObject\<close>). A container is the
  list of its blobs in listing order; a blob has a name, a soft-deletion flag and its
  bytes. \<open>refuses\<close> says which requests fail, and with which exception;
  \<open>create_answer\<close> is the response of the service to a \<^verbatim>\<open>Create\<close> of an append blob.
\<close>

record BlobItem =
  Name :: string
  IsDeleted :: bool
  Content :: "byte list"

definition BlobSize :: "BlobItem \<Rightarrow> int" where
  "BlobSize item = int (length (Content item))"

datatype request =
  ReqListBlobs string string
| ReqGetProperties string string
| ReqDownload string string int int
| ReqCreate string string
| ReqCreateIfNotExists string string

record CreateAppendBlobResult =
  Created :: bool
  RawStatusCode :: HttpStatusCode
  RawReasonPhrase :: string

record store =
  containers :: "string \<Rightarrow> BlobItem list"
  refuses :: "request \<Rightarrow> exn option"
  create_answer :: "string \<Rightarrow> string \<Rightarrow> CreateAppendBlobResult"

definition find_blob :: "store \<Rightarrow> string \<Rightarrow> string \<Rightarrow> BlobItem option" where
  "find_blob st bucket name =
     List.find (\<lambda>item. Name item = name \<and> \<not> IsDeleted item) (containers st bucket)"

definition blob_not_found :: exn where
  "blob_not_found = StorageException NotFound ''The specified blob does not exist.''"

definition invalid_range :: exn where
  "invalid_range = StorageException RangeNotSatisfiable
     ''The range specified is invalid for the current size of the resource.''"

text \<open>\<^verbatim>\<open>ListBlobs\<close> with a prefix: all pages, in listing order.\<close>

definition ListBlobs :: "store \<Rightarrow> string \<Rightarrow> string \<Rightarrow> exn + BlobItem list" where
  "ListBlobs st bucket pfx =
     (case refuses st (ReqListBlobs bucket pfx) of
        Some e \<Rightarrow> Inl e
      | None \<Rightarrow> Inr (filter (\<lambda>item. take (length pfx) (Name item) = pfx) (containers st bucket)))"

text \<open>\<^verbatim>\<open>GetProperties\<close>, of which the driver reads the blob size; it throws if the blob is absent.\<close>

definition GetProperties :: "store \<Rightarrow> string \<Rightarrow> string \<Rightarrow> exn + int" where
  "GetProperties st bucket name =
     (case refuses st (ReqGetProperties bucket name) of
        Some e \<Rightarrow> Inl e
      | None \<Rightarrow>
          (case find_blob st bucket name of
             None \<Rightarrow> Inl blob_not_found
           | Some item \<Rightarrow> Inr (BlobSize item)))"

text \<open>
  \<^verbatim>\<open>DownloadTo\<close> with a range: the bytes of the range that exist, and the size of the
  whole blob. The length of the bytes is \<^verbatim>\<open>ContentRange.Length\<close>. A range that starts
  at the end of the blob yields no bytes; one that starts beyond it, or a negative
  start or length, is refused.
\<close>

definition DownloadTo ::
  "store \<Rightarrow> string \<Rightarrow> string \<Rightarrow> int \<Rightarrow> int \<Rightarrow> exn + (byte list \<times> int)" where
  "DownloadTo st bucket name range_start range_length =
     (case refuses st (ReqDownload bucket name range_start range_length) of
        Some e \<Rightarrow> Inl e
      | None \<Rightarrow>
          (case find_blob st bucket name of
             None \<Rightarrow> Inl blob_not_found
           | Some item \<Rightarrow>
               if range_start < 0 \<or> range_length < 0 \<or> BlobSize item < range_start
               then Inl invalid_range
               else Inr (take (nat range_length) (drop (nat range_start) (Content item)),
                         BlobSize item)))"

definition put_empty_blob :: "store \<Rightarrow> string \<Rightarrow> string \<Rightarrow> store" where
  "put_empty_blob st bucket name =
     st\<lparr>containers := (containers st)
          (bucket := filter (\<lambda>item. Name item \<noteq> name \<or> IsDeleted item) (containers st bucket)
                     @ [\<lparr>Name = name, IsDeleted = False, Content = []\<rparr>])\<rparr>"

text \<open>
  \<^verbatim>\<open>AppendBlobClient::Create\<close> answers as the service does; a created blob is empty.
  \<^verbatim>\<open>CreateIfNotExists\<close> leaves an existing blob as it is and reports \<open>Created = False\<close>.
\<close>

definition Create :: "store \<Rightarrow> string \<Rightarrow> string \<Rightarrow> exn + (CreateAppendBlobResult \<times> store)" where
  "Create st bucket name =
     (case refuses st (ReqCreate bucket name) of
        Some e \<Rightarrow> Inl e
      | None \<Rightarrow>
          Inr (create_answer st bucket name,
               if Created (create_answer st bucket name) then put_empty_blob st bucket name
               else st))"

definition CreateIfNotExists ::
  "store \<Rightarrow> string \<Rightarrow> string \<Rightarrow> exn + (CreateAppendBlobResult \<times> store)" where
  "CreateIfNotExists st bucket name =
     (case refuses st (ReqCreateIfNotExists bucket name) of
        Some e \<Rightarrow> Inl e
      | None \<Rightarrow>
          (case find_blob st bucket name of
             Some item \<Rightarrow>
               Inr (\<lparr>Created = False, RawStatusCode = Conflict,
                     RawReasonPhrase = ''The specified blob already exists.''\<rparr>, st)
           | None \<Rightarrow>
               Inr (\<lparr>Created = True, RawStatusCode = OtherStatus 201,
                     RawReasonPhrase = ''Created''\<rparr>, put_empty_blob st bucket name)))"

subsection \<open>Closing a stream\<close>

text \<open>
  \<^verbatim>\<open>driver_fclose\<close> starts with \<^verbatim>\<open>assert(driver_isConnected())\<close>: the result is \<open>None\<close>
  when the assertion aborts the program.
\<close>

definition driver_fclose :: "driver_state \<Rightarrow> handle \<Rightarrow> (driver_state \<times> close_code) option" where
  "driver_fclose s stream =
     (if bIsConnected s = 0 then None
      else if stream = 0 then Some (LogError (null_arg_msg ''driver_fclose'') s, kCloseEOF)
      else case FindReader stream s of
        Some pos \<Rightarrow>
          Some (s\<lparr>active_reader_handles := EraseRemove pos (active_reader_handles s)\<rparr>,
                kCloseSuccess)
      | None \<Rightarrow>
          (case FindWriter stream s of
             Some pos \<Rightarrow>
               Some (s\<lparr>active_writer_handles := EraseRemove pos (active_writer_handles s)\<rparr>,
                     kCloseSuccess)
           | None \<Rightarrow> Some (LogError (Msg ''Cannot identify stream.'') s, kCloseEOF)))"

text \<open>
  Live stream objects have pairwise different addresses, readers and writers alike.
\<close>

definition handles_distinct :: "driver_state \<Rightarrow> bool" where
  "handles_distinct s \<longleftrightarrow>
     distinct (map fst (active_reader_handles s) @ map fst (active_writer_handles s))"

subsection \<open>Opening a writer\<close>

datatype WriterMode = kWrite | kAppend

definition MakeWriterPtr ::
  "store \<Rightarrow> string \<Rightarrow> string \<Rightarrow> WriterMode \<Rightarrow> store \<times> (failure + Writer)" where
  "MakeWriterPtr st bucket object mode =
     (case mode of
        kWrite \<Rightarrow>
          (case Create st bucket object of
             Inl e \<Rightarrow> (st, Inl (MakeDriverFailureFromException e))
           | Inr (response, st') \<Rightarrow>
               if \<not> Created response
               then (st', Inl (HttpFailure (RawStatusCode response) (RawReasonPhrase response)))
               else (st', Inr \<lparr>wr_bucketname = bucket, wr_filename = object\<rparr>))
      | kAppend \<Rightarrow>
          (case CreateIfNotExists st bucket object of
             Inl e \<Rightarrow> (st, Inl (MakeDriverFailureFromException e))
           | Inr (response, st') \<Rightarrow> (st', Inr \<lparr>wr_bucketname = bucket, wr_filename = object\<rparr>)))"

text \<open>
  Modelled from the spec: the constructor of \<^verbatim>\<open>Reader\<close>, declared in
  \<^verbatim>\<open>azureplugin_internal.h\<close>, which is not among the sources. It stores its arguments;
  the total logical size is the last cumulative size, or 0 if there is none.
\<close>

definition make_Reader ::
  "string \<Rightarrow> string \<Rightarrow> tOffset \<Rightarrow> tOffset \<Rightarrow> string list \<Rightarrow> tOffset list \<Rightarrow> Reader" where
  "make_Reader bucket object offset header_length filenames cumulative_sizes =
     \<lparr>rd_bucketname = bucket, rd_filename = object, rd_offset = offset,
      rd_commonHeaderLength = header_length, rd_filenames = filenames,
      rd_cumulativeSize = cumulative_sizes,
      rd_total_size = (if cumulative_sizes = [] then 0 else last cumulative_sizes)\<rparr>"

text \<open>The lambda \<^verbatim>\<open>make_simple_reader\<close> of \<^verbatim>\<open>MakeReaderPtr\<close>: a reader over one part.\<close>

definition make_simple_reader :: "string \<Rightarrow> string \<Rightarrow> string \<Rightarrow> int \<Rightarrow> Reader" where
  "make_simple_reader bucket object filename blob_size =
     make_Reader bucket object 0 0 [filename] [blob_size]"

subsection \<open>Patterns and listing\<close>

fun first_index :: "('a \<Rightarrow> bool) \<Rightarrow> 'a list \<Rightarrow> nat option" where
  "first_index P [] = None"
| "first_index P (x # xs) = (if P x then Some 0 else map_option Suc (first_index P xs))"

text \<open>
  \<^verbatim>\<open>std::string::find_first_of\<close> from a position: the first index at or after it that
  holds one of the characters; \<open>None\<close> is \<^verbatim>\<open>npos\<close>.
\<close>

definition find_first_of :: "string \<Rightarrow> string \<Rightarrow> nat \<Rightarrow> nat option" where
  "find_first_of chars s from_offset =
     map_option (\<lambda>i. from_offset + i) (first_index (\<lambda>c. c \<in> set chars) (drop from_offset s))"

definition special_chars :: string where
  "special_chars = [CHR ''*'', CHR ''?'', CHR ''!'', CHR ''['', CHR ''^'']"

lemma first_index_less: "first_index P xs = Some i \<Longrightarrow> i < length xs"
  by (induction xs arbitrary: i) (auto split: if_splits)

lemma find_first_of_bounds:
  "find_first_of chars s from_offset = Some i \<Longrightarrow> from_offset \<le> i \<and> i < length s"
  by (auto simp: find_first_of_def dest!: first_index_less)

text \<open>
  The loop of \<^verbatim>\<open>FindPatternSpecialChar\<close>: a special character that follows a backslash
  is skipped and the search goes on after it.
\<close>

function FindPatternSpecialChar_from :: "string \<Rightarrow> nat \<Rightarrow> nat option" where
  "FindPatternSpecialChar_from pattern from_offset =
     (case find_first_of special_chars pattern from_offset of
        None \<Rightarrow> None
      | Some found_at \<Rightarrow>
          if found_at > 0 \<and> pattern ! (found_at - 1) = CHR 0x5C
          then FindPatternSpecialChar_from pattern (found_at + 1)
          else Some found_at)"
  by pat_completeness auto
termination
  by (relation "measure (\<lambda>(pattern, from_offset). length pattern - from_offset)")
     (auto dest!: find_first_of_bounds)

declare FindPatternSpecialChar_from.simps [simp del]

definition FindPatternSpecialChar :: "string \<Rightarrow> nat option" where
  "FindPatternSpecialChar pattern = FindPatternSpecialChar_from pattern 0"

text \<open>
  \<^verbatim>\<open>FilterList\<close>. The matcher \<^verbatim>\<open>utils::gitignore_glob_match\<close> is not among the sources:
  it is the parameter \<open>glob\<close>, applied to a blob name and the pattern.
\<close>

definition FilterList ::
  "(string \<Rightarrow> string \<Rightarrow> bool) \<Rightarrow> store \<Rightarrow> string \<Rightarrow> string \<Rightarrow> nat \<Rightarrow> failure + BlobItem list" where
  "FilterList glob st bucket pattern pattern_1st_sp_char_pos =
     (case ListBlobs st bucket (take pattern_1st_sp_char_pos pattern) of
        Inl e \<Rightarrow> Inl (MakeDriverFailureFromException e)
      | Inr blobs \<Rightarrow>
          (let res = filter (\<lambda>item. \<not> IsDeleted item \<and> glob (Name item) pattern) blobs
           in if res = []
              then Inl (HttpFailure NotFound ''No blob matching pattern in container.'')
              else Inr res))"

text \<open>
  The blobs of a container that \<^verbatim>\<open>FilterList\<close> keeps, in listing order: those whose name
  starts with the pattern's text before its first special character, that are not
  deleted, and that the matcher accepts.
\<close>

definition matching_blobs ::
  "(string \<Rightarrow> string \<Rightarrow> bool) \<Rightarrow> store \<Rightarrow> string \<Rightarrow> string \<Rightarrow> nat \<Rightarrow> BlobItem list" where
  "matching_blobs glob st container pattern pos =
     filter (\<lambda>item. \<not> IsDeleted item \<and> glob (Name item) pattern)
       (filter (\<lambda>item. take (length (take pos pattern)) (Name item) = take pos pattern)
          (containers st container))"

subsection \<open>Detecting the header\<close>

definition block_size :: int where
  "block_size = 10 * 1024 * 1024"

definition newline :: byte where
  "newline = CHR 0x0A"

text \<open>
  \<^verbatim>\<open>ReadPart\<close> into a buffer: the downloaded bytes overwrite the start of the buffer,
  the rest of the buffer keeps what it held. The result is the buffer and the number of
  bytes read.
\<close>

definition ReadPart ::
  "store \<Rightarrow> string \<Rightarrow> string \<Rightarrow> byte list \<Rightarrow> int \<Rightarrow> exn + (byte list \<times> nat)" where
  "ReadPart st bucket name dest offset =
     (case DownloadTo st bucket name offset (int (length dest)) of
        Inl e \<Rightarrow> Inl e
      | Inr (bytes, blob_size) \<Rightarrow> Inr (bytes @ drop (length bytes) dest, length bytes))"

text \<open>
  The loop of \<^verbatim>\<open>FindHeader\<close>. The argument \<open>header\<close> is the part of the vector that has
  been filled, so that \<^verbatim>\<open>bytes_read\<close> is its length; the block that the vector holds
  beyond it is only the destination of the next download.
\<close>

function FindHeader_loop :: "store \<Rightarrow> string \<Rightarrow> string \<Rightarrow> byte list \<Rightarrow> exn + byte list option" where
  "FindHeader_loop st bucket name header =
     (case DownloadTo st bucket name (int (length header)) block_size of
        Inl e \<Rightarrow> Inl e
      | Inr (chunk, blob_size) \<Rightarrow>
          (case first_index (\<lambda>b. b = newline) chunk of
             Some pos \<Rightarrow> Inr (Some (header @ take (pos + 1) chunk))
           | None \<Rightarrow>
               if int (length header + length chunk) = blob_size then Inr None
               else FindHeader_loop st bucket name (header @ chunk)))"
  by pat_completeness auto
termination
  by (relation "measure (\<lambda>(st, bucket, name, header).
        case find_blob st bucket name of None \<Rightarrow> 0
        | Some item \<Rightarrow> length (Content item) - length header)")
     (auto simp: DownloadTo_def BlobSize_def block_size_def min_def
           split: option.splits if_splits)

declare FindHeader_loop.simps [simp del]

definition FindHeader :: "store \<Rightarrow> string \<Rightarrow> string \<Rightarrow> exn + byte list option" where
  "FindHeader st bucket name = FindHeader_loop st bucket name []"

definition IsSameHeader ::
  "store \<Rightarrow> string \<Rightarrow> BlobItem \<Rightarrow> byte list \<Rightarrow> byte list \<Rightarrow> exn + (bool \<times> byte list)" where
  "IsSameHeader st bucket blob_item header part_buffer =
     (case ReadPart st bucket (Name blob_item) part_buffer 0 of
        Inl e \<Rightarrow> Inl e
      | Inr (part_buffer', bytes_read) \<Rightarrow> Inr (part_buffer' = header, part_buffer'))"

subsection \<open>The size of a logical file\<close>

text \<open>
  The loop over the parts after the first one in \<^verbatim>\<open>GetFileSize\<close>. Its state is the total
  size, the flag \<^verbatim>\<open>same_headers\<close>, the buffer \<^verbatim>\<open>part_buffer\<close>, which the loop reuses from
  one part to the next, and the names of the parts whose header has been read.
\<close>

fun GetFileSize_loop ::
  "store \<Rightarrow> string \<Rightarrow> byte list \<Rightarrow> BlobItem list \<Rightarrow> int \<times> bool \<times> byte list \<times> string list
     \<Rightarrow> exn + (int \<times> bool \<times> byte list \<times> string list)" where
  "GetFileSize_loop st bucket header [] acc = Inr acc"
| "GetFileSize_loop st bucket header (blob_item # rest) (total_size, same_headers, part_buffer, probed) =
     (if same_headers
      then (case IsSameHeader st bucket blob_item header part_buffer of
              Inl e \<Rightarrow> Inl e
            | Inr (same, part_buffer') \<Rightarrow>
                GetFileSize_loop st bucket header rest
                  (total_size + BlobSize blob_item, same, part_buffer', probed @ [Name blob_item]))
      else GetFileSize_loop st bucket header rest
             (total_size + BlobSize blob_item, same_headers, part_buffer, probed))"

text \<open>
  \<^verbatim>\<open>GetFileSize\<close> on the bucket and object of a parsed URI. Next to the result it gives
  the names of the parts whose header it has compared with the first part's.
\<close>

definition GetFileSize_probing ::
  "(string \<Rightarrow> string \<Rightarrow> bool) \<Rightarrow> store \<Rightarrow> string \<Rightarrow> string \<Rightarrow> (failure + int) \<times> string list" where
  "GetFileSize_probing glob st bucket object =
     (case FindPatternSpecialChar object of
        None \<Rightarrow>
          (case GetProperties st bucket object of
             Inl e \<Rightarrow> (Inl (MakeDriverFailureFromException e), [])
           | Inr blob_size \<Rightarrow> (Inr blob_size, []))
      | Some pattern_1st_sp_char_pos \<Rightarrow>
          (case FilterList glob st bucket object pattern_1st_sp_char_pos of
             Inl f \<Rightarrow> (Inl f, [])
           | Inr blobs_list \<Rightarrow>
               if length blobs_list = 1 then (Inr (BlobSize (blobs_list ! 0)), [])
               else
                 (case FindHeader st bucket (Name (blobs_list ! 0)) of
                    Inl e \<Rightarrow> (Inl (MakeDriverFailureFromException e), [])
                  | Inr None \<Rightarrow>
                      (Inl (HttpFailure HttpNone ''Error while reading header of first file.''), [])
                  | Inr (Some header) \<Rightarrow>
                      (case GetFileSize_loop st bucket header (tl blobs_list)
                              (BlobSize (blobs_list ! 0), True,
                               replicate (length header) (CHR 0x00), []) of
                         Inl e \<Rightarrow> (Inl (MakeDriverFailureFromException e), [])
                       | Inr (total_size, same_headers, part_buffer, probed) \<Rightarrow>
                           (Inr (if same_headers
                                 then total_size
                                        - int ((length blobs_list - 1) * length header)
                                 else total_size), probed)))))"

definition GetFileSize ::
  "(string \<Rightarrow> string \<Rightarrow> bool) \<Rightarrow> store \<Rightarrow> string \<Rightarrow> string \<Rightarrow> failure + int" where
  "GetFileSize glob st bucket object = fst (GetFileSize_probing glob st bucket object)"

subsection \<open>Opening a reader\<close>

text \<open>
  The loop over the parts after the first one in \<^verbatim>\<open>MakeReaderPtr\<close>: it pushes each name
  and cumulative size, and compares headers while \<^verbatim>\<open>same_headers\<close> holds.
\<close>

fun MakeReaderPtr_loop ::
  "store \<Rightarrow> string \<Rightarrow> byte list \<Rightarrow> BlobItem list
     \<Rightarrow> string list \<times> int list \<times> bool \<times> byte list
     \<Rightarrow> exn + (string list \<times> int list \<times> bool \<times> byte list)" where
  "MakeReaderPtr_loop st bucket header [] acc = Inr acc"
| "MakeReaderPtr_loop st bucket header (curr_blob_item # rest)
       (filenames, cumulativeSize, same_headers, part_buffer) =
     (if same_headers
      then (case IsSameHeader st bucket curr_blob_item header part_buffer of
              Inl e \<Rightarrow> Inl e
            | Inr (same, part_buffer') \<Rightarrow>
                MakeReaderPtr_loop st bucket header rest
                  (filenames @ [Name curr_blob_item],
                   cumulativeSize @ [last cumulativeSize + BlobSize curr_blob_item],
                   same, part_buffer'))
      else MakeReaderPtr_loop st bucket header rest
             (filenames @ [Name curr_blob_item],
              cumulativeSize @ [last cumulativeSize + BlobSize curr_blob_item],
              same_headers, part_buffer))"

text \<open>The second loop: entry \<open>i\<close> from 1 on loses \<open>i\<close> times the header size.\<close>

definition subtract_headers :: "nat \<Rightarrow> int list \<Rightarrow> int list" where
  "subtract_headers header_size cumulativeSize =
     take 1 cumulativeSize
     @ map (\<lambda>i. cumulativeSize ! i - int (i * header_size)) [1..<length cumulativeSize]"

definition MakeReaderPtr ::
  "(string \<Rightarrow> string \<Rightarrow> bool) \<Rightarrow> store \<Rightarrow> string \<Rightarrow> string \<Rightarrow> failure + Reader" where
  "MakeReaderPtr glob st bucket object =
     (case FindPatternSpecialChar object of
        None \<Rightarrow>
          (case GetProperties st bucket object of
             Inl e \<Rightarrow> Inl (MakeDriverFailureFromException e)
           | Inr blob_size \<Rightarrow> Inr (make_simple_reader bucket object object blob_size))
      | Some pattern_1st_sp_char_pos \<Rightarrow>
          (case FilterList glob st bucket object pattern_1st_sp_char_pos of
             Inl f \<Rightarrow> Inl f
           | Inr blobs_list \<Rightarrow>
               if length blobs_list = 1
               then Inr (make_simple_reader bucket object (Name (blobs_list ! 0))
                           (BlobSize (blobs_list ! 0)))
               else
                 (case FindHeader st bucket (Name (blobs_list ! 0)) of
                    Inl e \<Rightarrow> Inl (MakeDriverFailureFromException e)
                  | Inr None \<Rightarrow>
                      Inl (HttpFailure HttpNone ''Error while reading header of first file.'')
                  | Inr (Some header) \<Rightarrow>
                      (case MakeReaderPtr_loop st bucket header (tl blobs_list)
                              ([Name (blobs_list ! 0)], [BlobSize (blobs_list ! 0)], True,
                               replicate (length header) (CHR 0x00)) of
                         Inl e \<Rightarrow> Inl (MakeDriverFailureFromException e)
                       | Inr (filenames, cumulativeSize, same_headers, part_buffer) \<Rightarrow>
                           Inr (make_Reader bucket object 0 (int (length header)) filenames
                                  (if same_headers
                                   then subtract_headers (length header) cumulativeSize
                                   else cumulativeSize))))))"

subsection \<open>Headers and parts\<close>

text \<open>
  The first line of a byte sequence, its newline included, if it has one: what
  \<^verbatim>\<open>FindHeader\<close> looks for in the first part.
\<close>

definition first_line :: "byte list \<Rightarrow> byte list option" where
  "first_line bytes =
     (case first_index (\<lambda>b. b = newline) bytes of
        None \<Rightarrow> None
      | Some k \<Rightarrow> Some (take (k + 1) bytes))"

text \<open>A container holds at most one blob that is not deleted under each name.\<close>

definition live_names_distinct :: "store \<Rightarrow> string \<Rightarrow> bool" where
  "live_names_distinct st container \<longleftrightarrow>
     distinct (map Name (filter (\<lambda>item. \<not> IsDeleted item) (containers st container)))"


text \<open>
  A part agrees with the header wherever both have a byte: one of the two is a prefix of
  the other, once the part is cut at the header's length. A part that begins with the
  header agrees with it; so does a part shorter than the header that is a prefix of it,
  although it does not begin with the header.
\<close>

definition agrees_with :: "byte list \<Rightarrow> byte list \<Rightarrow> bool" where
  "agrees_with header bytes \<longleftrightarrow> take (length bytes) header = take (length header) bytes"

text \<open>
  What the loops of \<^verbatim>\<open>GetFileSize\<close> and \<^verbatim>\<open>MakeReaderPtr\<close> are shown below to compute on
  the parts after the first one: the flag \<^verbatim>\<open>same_headers\<close> at the end, and the parts whose
  beginning has been read. The second part is read into a buffer of zeros, each further
  one into the buffer that the part before it has left.
\<close>

definition judged_same :: "byte list \<Rightarrow> BlobItem list \<Rightarrow> bool" where
  "judged_same header later =
     (case later of
        [] \<Rightarrow> True
      | second # rest \<Rightarrow>
          take (length header) (Content second) = header
          \<and> list_all (\<lambda>item. agrees_with header (Content item)) rest)"

definition compared_parts :: "byte list \<Rightarrow> BlobItem list \<Rightarrow> BlobItem list" where
  "compared_parts header later =
     (case later of
        [] \<Rightarrow> []
      | second # rest \<Rightarrow>
          second #
          (if take (length header) (Content second) = header
           then takeWhile (\<lambda>item. agrees_with header (Content item)) rest
                @ take 1 (dropWhile (\<lambda>item. agrees_with header (Content item)) rest)
           else []))"

text \<open>
  The buffer after a download of at most its length from the start of a blob: the
  downloaded bytes, then what the buffer held beyond them.
\<close>

definition overwrite_start :: "byte list \<Rightarrow> byte list \<Rightarrow> byte list" where
  "overwrite_start bytes buffer =
     take (length buffer) bytes @ drop (length (take (length buffer) bytes)) buffer"

subsection \<open>Parsing a URI\<close>

text \<open>
  The file name of a driver call, as \<^verbatim>\<open>Azure::Core::Url\<close> decomposes it: the text
  itself, the scheme, the host and the path (without its leading slash).
\<close>

record Url =
  url_text :: string
  GetScheme :: string
  GetHost :: string
  GetPath :: string

datatype Service = UNKNOWN | BLOB | SHARE

record ParseUriResult =
  parsed_service :: Service
  parsed_bucket :: string
  parsed_object :: string

definition compare_suffix :: "string \<Rightarrow> string \<Rightarrow> bool" where
  "compare_suffix full suffix \<longleftrightarrow>
     length full \<ge> length suffix \<and> drop (length full - length suffix) full = suffix"

text \<open>
  In the branch of a testing URI, \<^verbatim>\<open>bkt_pos = obj_pos + 1\<close> is computed before the test for
  \<^verbatim>\<open>npos\<close>: \<^verbatim>\<open>npos + 1\<close> wraps to 0.
\<close>

definition ParseAzureUri :: "Url \<Rightarrow> failure + ParseUriResult" where
  "ParseAzureUri parsed_uri =
     (if GetScheme parsed_uri \<noteq> ''https'' \<and> GetScheme parsed_uri \<noteq> ''http''
      then Inl (HttpFailure BadRequest ''Invalid Azure URI'')
      else
        let path = GetPath parsed_uri;
            host = GetHost parsed_uri;
            first_slash = find_first_of ''/'' path 0;
            production = compare_suffix host ''.core.windows.net'';
            srv = (if production
                   then (if compare_suffix host ''.blob.core.windows.net'' then BLOB
                         else if compare_suffix host ''.file.core.windows.net'' then SHARE
                         else UNKNOWN)
                   else BLOB);
            bkt_pos = (if production then 0
                       else case first_slash of None \<Rightarrow> 0 | Some p \<Rightarrow> p + 1);
            obj_pos = (if production then first_slash else find_first_of ''/'' path bkt_pos)
        in case obj_pos of
             None \<Rightarrow>
               Inl (HttpFailure BadRequest
                      (''Invalid Azure URI, missing object name: '' @ url_text parsed_uri))
           | Some p \<Rightarrow>
               Inr \<lparr>parsed_service = srv,
                    parsed_bucket = take (p - bkt_pos) (drop bkt_pos path),
                    parsed_object = drop (p + 1) path\<rparr>)"

subsection \<open>Opening a stream\<close>

text \<open>
  \<^verbatim>\<open>PushBackHandle\<close>: the new stream object lives at the address \<open>addr\<close> that the
  allocator has chosen, and that address is the handle.
\<close>

definition PushBackHandle :: "handle \<Rightarrow> 'a \<Rightarrow> (handle \<times> 'a) list \<Rightarrow> (handle \<times> 'a) list" where
  "PushBackHandle addr stream handles = handles @ [(addr, stream)]"

definition RegisterReader ::
  "(string \<Rightarrow> string \<Rightarrow> bool) \<Rightarrow> store \<Rightarrow> handle \<Rightarrow> string \<Rightarrow> string \<Rightarrow> driver_state
     \<Rightarrow> driver_state \<times> (failure + handle)" where
  "RegisterReader glob st addr bucket object s =
     (case MakeReaderPtr glob st bucket object of
        Inl f \<Rightarrow> (s, Inl f)
      | Inr reader \<Rightarrow>
          (s\<lparr>active_reader_handles := PushBackHandle addr reader (active_reader_handles s)\<rparr>,
           Inr addr))"

definition RegisterWriter ::
  "store \<Rightarrow> handle \<Rightarrow> string \<Rightarrow> string \<Rightarrow> WriterMode \<Rightarrow> driver_state
     \<Rightarrow> store \<times> driver_state \<times> (failure + handle)" where
  "RegisterWriter st addr bucket object mode s =
     (case MakeWriterPtr st bucket object mode of
        (st', Inl f) \<Rightarrow> (st', s, Inl f)
      | (st', Inr writer) \<Rightarrow>
          (st',
           s\<lparr>active_writer_handles := PushBackHandle addr writer (active_writer_handles s)\<rparr>,
           Inr addr))"

text \<open>
  \<^verbatim>\<open>driver_fopen\<close>. The file name is \<open>None\<close> for a null pointer; the result is the store,
  the driver's state and the handle, 0 for \<^verbatim>\<open>nullptr\<close>. In the default case the code adds
  the mode character to the address of a string literal, which drops that many
  characters from the message.
\<close>

definition driver_fopen ::
  "(string \<Rightarrow> string \<Rightarrow> bool) \<Rightarrow> store \<Rightarrow> driver_state \<Rightarrow> handle \<Rightarrow> Url option \<Rightarrow> char
     \<Rightarrow> store \<times> driver_state \<times> handle" where
  "driver_fopen glob st s addr filename mode =
     (if bIsConnected s = kFalse then (st, LogError not_connected_msg s, 0)
      else case filename of
        None \<Rightarrow> (st, LogError (null_arg_msg ''driver_fopen'') s, 0)
      | Some uri \<Rightarrow>
          (case ParseAzureUri uri of
             Inl f \<Rightarrow> (st, LogBadResult f ''Error parsing URL'' s, 0)
           | Inr parsed_names \<Rightarrow>
               if mode = CHR ''r'' then
                 (case RegisterReader glob st addr (parsed_bucket parsed_names) (parsed_object parsed_names) s of
                    (s', Inl f) \<Rightarrow> (st, LogBadResult f ''Error while opening reader stream.'' s', 0)
                  | (s', Inr h) \<Rightarrow> (st, s', h))
               else if mode = CHR ''w'' then
                 (case RegisterWriter st addr (parsed_bucket parsed_names) (parsed_object parsed_names) kWrite s of
                    (st', s', Inl f) \<Rightarrow>
                      (st', LogBadResult f ''Error while opening writer stream.'' s', 0)
                  | (st', s', Inr h) \<Rightarrow> (st', s', h))
               else if mode = CHR ''a'' then
                 (case (case FindPatternSpecialChar (parsed_object parsed_names) of
                          None \<Rightarrow> Inr (parsed_object parsed_names)
                        | Some pattern_1st_sp_char_pos \<Rightarrow>
                            (case FilterList glob st (parsed_bucket parsed_names) (parsed_object parsed_names)
                                    pattern_1st_sp_char_pos of
                               Inl f \<Rightarrow> Inl f
                             | Inr blobs \<Rightarrow> Inr (Name (last blobs)))) of
                    Inl f \<Rightarrow>
                      (st, LogBadResult f ''Error while opening stream in append mode.'' s, 0)
                  | Inr target \<Rightarrow>
                      (case RegisterWriter st addr (parsed_bucket parsed_names) target kAppend s of
                         (st', s', Inl f) \<Rightarrow>
                           (st', LogBadResult f ''Error while opening stream in append mode.'' s', 0)
                       | (st', s', Inr h) \<Rightarrow> (st', s', h)))
               else (st, LogError (Msg (drop (of_char mode) ''Invalid open mode: '')) s, 0)))"

subsection \<open>Reading\<close>

text \<open>
  \<^verbatim>\<open>std::upper_bound\<close> on the cumulative sizes: the index of the first one greater than
  the offset (the sizes are in ascending order), their number if there is none.
\<close>

definition upper_bound :: "int list \<Rightarrow> int \<Rightarrow> nat" where
  "upper_bound xs v = length (takeWhile (\<lambda>x. \<not> v < x) xs)"

text \<open>
  What \<^verbatim>\<open>ReadBytesInFile\<close> changes while it runs: the reader's offset, the caller's
  buffer, the position in the buffer, the number of bytes still to read; and the
  download requests it has sent so far.
\<close>

record read_progress =
  rp_offset :: tOffset
  rp_buffer :: "byte list"
  rp_buffer_pos :: nat
  rp_to_read :: tOffset
  rp_requests :: "request list"

definition write_at :: "nat \<Rightarrow> byte list \<Rightarrow> byte list \<Rightarrow> byte list" where
  "write_at pos bytes buffer = take pos buffer @ bytes @ drop (pos + length bytes) buffer"

text \<open>
  The lambda \<^verbatim>\<open>read_range_and_update\<close>: if the download throws, nothing else is
  updated; otherwise offset, buffer position and count move by the requested length,
  whatever the number of bytes received.
\<close>

definition read_range_and_update ::
  "store \<Rightarrow> string \<Rightarrow> string \<Rightarrow> tOffset \<Rightarrow> tOffset \<Rightarrow> read_progress \<Rightarrow> read_progress \<times> exn option" where
  "read_range_and_update st container filename range_start range_length rp =
     (let sent = rp\<lparr>rp_requests :=
                   rp_requests rp @ [ReqDownload container filename range_start range_length]\<rparr>
      in case DownloadTo st container filename range_start range_length of
           Inl e \<Rightarrow> (sent, Some e)
         | Inr (bytes, blob_size) \<Rightarrow>
             (sent\<lparr>rp_offset := rp_offset rp + range_length,
                   rp_buffer := write_at (rp_buffer_pos rp) bytes (rp_buffer rp),
                   rp_buffer_pos := rp_buffer_pos rp + nat range_length,
                   rp_to_read := rp_to_read rp - range_length\<rparr>, None))"

datatype read_status = Done | Threw exn | OutOfRange

text \<open>
  The loop \<^verbatim>\<open>while (to_read)\<close> over the next parts. Indexing a vector beyond its end is
  undefined behaviour in C++; the model stops with \<open>OutOfRange\<close>.
\<close>

function ReadBytesInFile_loop ::
  "store \<Rightarrow> Reader \<Rightarrow> nat \<Rightarrow> read_progress \<Rightarrow> read_progress \<times> read_status" where
  "ReadBytesInFile_loop st multifile idx rp =
     (if rp_to_read rp = 0 then (rp, Done)
      else if length (rd_cumulativeSize multifile) \<le> idx + 1
              \<or> length (rd_filenames multifile) \<le> idx + 1 then (rp, OutOfRange)
      else
        (case read_range_and_update st (rd_bucketname multifile)
                (rd_filenames multifile ! (idx + 1))
                (rd_commonHeaderLength multifile)
                (min (rp_to_read rp)
                     (rd_cumulativeSize multifile ! (idx + 1) - rd_cumulativeSize multifile ! idx))
                rp of
           (rp', Some e) \<Rightarrow> (rp', Threw e)
         | (rp', None) \<Rightarrow> ReadBytesInFile_loop st multifile (idx + 1) rp'))"
  by pat_completeness auto
termination
  by (relation "measure (\<lambda>(st, multifile, idx, rp). length (rd_cumulativeSize multifile) - idx)")
     auto

declare ReadBytesInFile_loop.simps [simp del]

datatype read_result = ReadSuccess int | ReadFailure failure | ReadOutOfRange

text \<open>
  \<^verbatim>\<open>ReadBytesInFile\<close>: the reader and the caller's buffer after the call, the requests
  sent, and the result.
\<close>

definition ReadBytesInFile ::
  "store \<Rightarrow> Reader \<Rightarrow> byte list \<Rightarrow> tOffset \<Rightarrow> (Reader \<times> byte list \<times> request list) \<times> read_result" where
  "ReadBytesInFile st multifile buffer to_read =
     (let cumul_sizes = rd_cumulativeSize multifile;
          common_header_length = rd_commonHeaderLength multifile;
          filenames = rd_filenames multifile;
          offset_bak = rd_offset multifile;
          idx = upper_bound cumul_sizes (rd_offset multifile)
      in if length cumul_sizes \<le> idx \<or> length filenames \<le> idx
         then ((multifile, buffer, []), ReadOutOfRange)
         else
           let file_start = (if idx = 0 then rd_offset multifile
                             else rd_offset multifile - cumul_sizes ! (idx - 1)
                                    + common_header_length);
               read_length = min to_read (cumul_sizes ! idx - rd_offset multifile);
               rp = \<lparr>rp_offset = rd_offset multifile, rp_buffer = buffer, rp_buffer_pos = 0,
                     rp_to_read = to_read, rp_requests = []\<rparr>
           in case read_range_and_update st (rd_bucketname multifile) (filenames ! idx)
                     file_start read_length rp of
                (rp1, Some e) \<Rightarrow>
                  ((multifile\<lparr>rd_offset := offset_bak\<rparr>, rp_buffer rp1, rp_requests rp1),
                   ReadFailure (MakeDriverFailureFromException e))
              | (rp1, None) \<Rightarrow>
                  (case ReadBytesInFile_loop st multifile idx rp1 of
                     (rp2, Done) \<Rightarrow>
                       ((multifile\<lparr>rd_offset := rp_offset rp2\<rparr>, rp_buffer rp2, rp_requests rp2),
                        ReadSuccess (rp_to_read rp2))
                   | (rp2, Threw e) \<Rightarrow>
                       ((multifile\<lparr>rd_offset := offset_bak\<rparr>, rp_buffer rp2, rp_requests rp2),
                        ReadFailure (MakeDriverFailureFromException e))
                   | (rp2, OutOfRange) \<Rightarrow>
                       ((multifile\<lparr>rd_offset := rp_offset rp2\<rparr>, rp_buffer rp2, rp_requests rp2),
                        ReadOutOfRange)))"

text \<open>A download request that the store fails with an exception.\<close>

fun download_fails :: "store \<Rightarrow> request \<Rightarrow> bool" where
  "download_fails st (ReqDownload container name range_start range_length) =
     isl (DownloadTo st container name range_start range_length)"
| "download_fails st other = False"

text \<open>
  \<^verbatim>\<open>WillSizeCountProductOverflow\<close>, on two values of type \<^verbatim>\<open>size_t\<close>; both are non-zero
  where it is called.
\<close>

definition WillSizeCountProductOverflow :: "nat \<Rightarrow> nat \<Rightarrow> bool" where
  "WillSizeCountProductOverflow item_size count \<longleftrightarrow>
     nat max_val div item_size < count \<or> nat max_val div count < item_size"

definition set_reader :: "nat \<Rightarrow> Reader \<Rightarrow> driver_state \<Rightarrow> driver_state" where
  "set_reader i reader s =
     s\<lparr>active_reader_handles :=
         (active_reader_handles s)[i := (fst (active_reader_handles s ! i), reader)]\<rparr>"

text \<open>
  \<^verbatim>\<open>driver_fread\<close>; its parameter \<^verbatim>\<open>size\<close> is \<open>item_size\<close> here. The destination \<open>ptr\<close> is \<open>None\<close> for a null pointer, otherwise the
  bytes the caller's buffer holds. The result is \<open>None\<close> where \<^verbatim>\<open>ReadBytesInFile\<close> runs
  into undefined behaviour, otherwise the driver's state, the buffer and the value
  returned.
\<close>

definition driver_fread ::
  "store \<Rightarrow> driver_state \<Rightarrow> byte list option \<Rightarrow> nat \<Rightarrow> nat \<Rightarrow> handle
     \<Rightarrow> (driver_state \<times> byte list option \<times> int) option" where
  "driver_fread st s ptr item_size count stream =
     (if bIsConnected s = kFalse then Some (LogError not_connected_msg s, ptr, kBadSize)
      else if stream = 0 then Some (LogError (null_arg_msg ''driver_fread'') s, ptr, kBadSize)
      else case ptr of
        None \<Rightarrow> Some (LogError (null_arg_msg ''driver_fread'') s, ptr, kBadSize)
      | Some buffer \<Rightarrow>
          if item_size = 0 then Some (LogError (Msg ''Error passing size of 0'') s, ptr, kBadSize)
          else case FindReader stream s of
            None \<Rightarrow>
              Some (LogError (Msg ''Cannot identify stream as a reader stream.'') s, ptr, kBadSize)
          | Some i \<Rightarrow>
              if count = 0 then Some (s, ptr, 0)
              else if WillSizeCountProductOverflow item_size count
              then Some (LogError (Msg ''product size * count is too large, would overflow'') s,
                         ptr, kBadSize)
              else
                let to_read = wrap64 (int ((item_size * count) mod 18446744073709551616));
                    reader = snd (active_reader_handles s ! i);
                    offset = rd_offset reader;
                    total_size = rd_total_size reader
                in if offset > wrap64 (max_val - to_read)
                   then Some (LogError (Msg ''signed overflow prevented on reading attempt'') s,
                              ptr, kBadSize)
                   else if offset \<ge> total_size
                   then Some (LogError
                                (Msg ''Error trying to read more bytes while already out of bounds'') s,
                              ptr, kBadSize)
                   else
                     let to_read' = (if wrap64 (offset + to_read) > total_size
                                     then wrap64 (total_size - offset) else to_read)
                     in case ReadBytesInFile st reader buffer to_read' of
                          ((reader', buffer', reqs), ReadSuccess r) \<Rightarrow>
                            Some (set_reader i reader' s, Some buffer', to_read')
                        | ((reader', buffer', reqs), ReadFailure f) \<Rightarrow>
                            Some (LogBadResult f ''Error while reading from file.''
                                    (set_reader i reader' s), Some buffer', kBadSize)
                        | ((reader', buffer', reqs), ReadOutOfRange) \<Rightarrow> None)"

subsection \<open>The logical stream\<close>

text \<open>
  The logical bytes of the parts when the first \<open>L\<close> bytes of every part but the first
  are elided, and their concatenation, the logical stream.
\<close>

definition logical_parts :: "nat \<Rightarrow> BlobItem list \<Rightarrow> byte list list" where
  "logical_parts L ms =
     (case ms of [] \<Rightarrow> [] | first_part # rest \<Rightarrow>
        Content first_part # map (\<lambda>item. drop L (Content item)) rest)"

definition elided :: "nat \<Rightarrow> BlobItem list \<Rightarrow> byte list" where
  "elided L ms = concat (logical_parts L ms)"

text \<open>The physical offset at which the logical bytes of part \<open>i\<close> start.\<close>

definition part_offset :: "Reader \<Rightarrow> nat \<Rightarrow> nat" where
  "part_offset reader i = (if i = 0 then 0 else nat (rd_commonHeaderLength reader))"

text \<open>
  A reader's index agrees with the store for the logical parts \<open>lp\<close>: the cumulative
  sizes are the running lengths of \<open>lp\<close>, and every part name denotes a blob whose bytes
  from the part's physical offset on are the logical bytes of that part.
\<close>

definition index_matches :: "store \<Rightarrow> Reader \<Rightarrow> byte list list \<Rightarrow> bool" where
  "index_matches st reader lp \<longleftrightarrow>
     lp \<noteq> [] \<and> length (rd_filenames reader) = length lp
     \<and> length (rd_cumulativeSize reader) = length lp
     \<and> 0 \<le> rd_commonHeaderLength reader
     \<and> rd_total_size reader = int (length (concat lp))
     \<and> (\<forall>i < length lp.
           rd_cumulativeSize reader ! i = int (length (concat (take (Suc i) lp)))
           \<and> (\<exists>item. find_blob st (rd_bucketname reader) (rd_filenames reader ! i) = Some item
                 \<and> part_offset reader i \<le> length (Content item)
                 \<and> drop (part_offset reader i) (Content item) = lp ! i))"

subsection \<open>Example states\<close>

text \<open>A connected driver with one open reader at address 1, over one part of the given size.\<close>

definition one_reader_state :: "int \<Rightarrow> tOffset \<Rightarrow> driver_state" where
  "one_reader_state blob_size off =
     \<lparr>bIsConnected = kTrue, lastError = Msg [],
      active_reader_handles =
        [(1, (make_simple_reader ''bucket'' ''data.txt'' ''data.txt'' blob_size)\<lparr>rd_offset := off\<rparr>)],
      active_writer_handles = []\<rparr>"

text \<open>
  A connected driver with readers at addresses 1, 2 and 3 and a writer at address 4, and
  the same driver after the reader at address 1 has been closed: the last reader has
  moved into the first slot.
\<close>

definition three_streams :: driver_state where
  "three_streams =
     \<lparr>bIsConnected = kTrue, lastError = Msg [],
      active_reader_handles =
        [(1, make_simple_reader ''bucket'' ''a.txt'' ''a.txt'' 10),
         (2, make_simple_reader ''bucket'' ''b.txt'' ''b.txt'' 20),
         (3, make_simple_reader ''bucket'' ''c.txt'' ''c.txt'' 30)],
      active_writer_handles = [(4, \<lparr>wr_bucketname = ''bucket'', wr_filename = ''out.txt''\<rparr>)]\<rparr>"

definition three_streams_closed :: driver_state where
  "three_streams_closed =
     three_streams\<lparr>active_reader_handles :=
        [(3, make_simple_reader ''bucket'' ''c.txt'' ''c.txt'' 30),
         (2, make_simple_reader ''bucket'' ''b.txt'' ''b.txt'' 20)]\<rparr>"

subsection \<open>Example stores and file names\<close>

text \<open>
  An example matcher: a name matches a pattern if it agrees with it up to the first
  special character of the pattern.
\<close>

definition prefix_glob :: "string \<Rightarrow> string \<Rightarrow> bool" where
  "prefix_glob name pattern =
     (case FindPatternSpecialChar pattern of
        None \<Rightarrow> name = pattern
      | Some pos \<Rightarrow> take pos name = take pos pattern)"

definition header10 :: "byte list" where
  "header10 = ''col_a;col'' @ [newline]"

definition part0 :: "byte list" where
  "part0 = header10 @ replicate 85 (CHR ''a'') @ ''vwxyz''"

definition part1 :: "byte list" where
  "part1 = header10 @ ''ABCDEFGHIJKLMNO'' @ replicate 75 (CHR ''b'')"

definition no_refusal :: "request \<Rightarrow> exn option" where
  "no_refusal req = None"

definition created_answer :: "string \<Rightarrow> string \<Rightarrow> CreateAppendBlobResult" where
  "created_answer container name =
     \<lparr>Created = True, RawStatusCode = OtherStatus 201, RawReasonPhrase = ''Created''\<rparr>"

definition not_created_answer :: "string \<Rightarrow> string \<Rightarrow> CreateAppendBlobResult" where
  "not_created_answer container name =
     \<lparr>Created = False, RawStatusCode = Conflict,
      RawReasonPhrase = ''The specified blob already exists.''\<rparr>"

definition two_parts :: "BlobItem list" where
  "two_parts =
     [\<lparr>Name = ''data-0.txt'', IsDeleted = False, Content = part0\<rparr>,
      \<lparr>Name = ''data-1.txt'', IsDeleted = False, Content = part1\<rparr>]"

definition two_parts_store :: store where
  "two_parts_store =
     \<lparr>containers = (\<lambda>container. if container = ''bucket'' then two_parts else []),
      refuses = no_refusal, create_answer = created_answer\<rparr>"


text \<open>
  The URI \<^verbatim>\<open>http://127.0.0.1:10000/devstoreaccount1/bucket/data-*\<close> of a storage emulator,
  and one whose pattern matches nothing.
\<close>

definition emulator_uri :: "string \<Rightarrow> Url" where
  "emulator_uri pattern =
     \<lparr>url_text = ''http://127.0.0.1:10000/devstoreaccount1/bucket/'' @ pattern,
      GetScheme = ''http'', GetHost = ''127.0.0.1'',
      GetPath = ''devstoreaccount1/bucket/'' @ pattern\<rparr>"

text \<open>A connected driver with no open stream.\<close>

definition connected_state :: driver_state where
  "connected_state =
     \<lparr>bIsConnected = kTrue, lastError = Msg [], active_reader_handles = [],
      active_writer_handles = []\<rparr>"

text \<open>
  The reader that \<^verbatim>\<open>MakeReaderPtr\<close> builds for the pattern \<^verbatim>\<open>data-*\<close> on the two parts, and
  a store that fails the download of 15 bytes at offset 10 of the second part.
\<close>

definition two_parts_reader :: Reader where
  "two_parts_reader =
     make_Reader ''bucket'' ''data-*'' 0 10 [''data-0.txt'', ''data-1.txt''] [100, 190]"

definition second_part_fails :: "request \<Rightarrow> exn option" where
  "second_part_fails req =
     (if req = ReqDownload ''bucket'' ''data-1.txt'' 10 15
      then Some (StdException ''Connection reset'') else None)"


text \<open>A connected driver whose one reader, at address 1, is that reader at a given offset.\<close>

definition two_parts_state :: "tOffset \<Rightarrow> driver_state" where
  "two_parts_state off =
     \<lparr>bIsConnected = kTrue, lastError = Msg [],
      active_reader_handles = [(1, two_parts_reader\<lparr>rd_offset := off\<rparr>)],
      active_writer_handles = []\<rparr>"

text \<open>
  Three parts of which the second starts with another line than the first, and two
  parts without any newline.
\<close>

definition mixed_parts :: "BlobItem list" where
  "mixed_parts =
     [\<lparr>Name = ''data-0.txt'', IsDeleted = False, Content = ''h'' @ [newline] @ ''AB''\<rparr>,
      \<lparr>Name = ''data-1.txt'', IsDeleted = False, Content = ''x'' @ [newline] @ ''CD''\<rparr>,
      \<lparr>Name = ''data-2.txt'', IsDeleted = False, Content = ''h'' @ [newline] @ ''EF''\<rparr>]"

definition headerless_parts :: "BlobItem list" where
  "headerless_parts =
     [\<lparr>Name = ''data-0.txt'', IsDeleted = False, Content = ''abc''\<rparr>,
      \<lparr>Name = ''data-1.txt'', IsDeleted = False, Content = ''def''\<rparr>]"

text \<open>
  Three parts of which the third is shorter than the first line of the first: it holds
  the first byte of that line and nothing else.
\<close>

definition short_parts :: "BlobItem list" where
  "short_parts =
     [\<lparr>Name = ''data-0.txt'', IsDeleted = False, Content = ''h'' @ [newline] @ ''AB''\<rparr>,
      \<lparr>Name = ''data-1.txt'', IsDeleted = False, Content = ''h'' @ [newline] @ ''CD''\<rparr>,
      \<lparr>Name = ''data-2.txt'', IsDeleted = False, Content = ''h''\<rparr>]"

definition store_of :: "BlobItem list \<Rightarrow> store" where
  "store_of blobs =
     \<lparr>containers = (\<lambda>container. if container = ''bucket'' then blobs else []),
      refuses = no_refusal, create_answer = created_answer\<rparr>"

section \<open>Properties\<close>

subsection \<open>64-bit values\<close>

lemma wrap64_id: "is_int64 x \<Longrightarrow> wrap64 x = x"
  by (simp add: wrap64_def is_int64_def min_val_def max_val_def)

subsection \<open>Handle lookup\<close>

lemma FindHandle_Some_iff:
  "FindHandle h xs = Some i \<Longrightarrow> i < length xs \<and> fst (xs ! i) = h"
proof (induction xs arbitrary: i)
  case Nil
  then show ?case by simp
next
  case (Cons p ps)
  show ?case
  proof (cases "h = fst p")
    case True
    with Cons.prems show ?thesis by simp
  next
    case False
    with Cons.prems obtain j where j: "FindHandle h ps = Some j" "i = Suc j"
      by auto
    from Cons.IH [OF j(1)] j(2) show ?thesis by simp
  qed
qed

lemma FindHandle_map_fst:
  "map fst xs = map fst ys \<Longrightarrow> FindHandle h xs = FindHandle h ys"
proof (induction xs arbitrary: ys)
  case Nil
  then show ?case by simp
next
  case (Cons p ps)
  then obtain q qs where ys: "ys = q # qs" by (cases ys) auto
  with Cons.prems have "fst p = fst q" "map fst ps = map fst qs" by simp_all
  with Cons.IH [of qs] ys show ?case by simp
qed

lemma FindHandle_update_snd:
  "FindHandle h (xs[i := (fst (xs ! i), v)]) = FindHandle h xs"
proof (cases "i < length xs")
  case True
  have "map fst (xs[i := (fst (xs ! i), v)]) = map fst xs"
    using True by (simp add: map_update list_update_same_conv)
  then show ?thesis by (rule FindHandle_map_fst)
next
  case False
  then show ?thesis by (simp add: list_update_beyond)
qed

lemma resolve_reader_LogError [simp]:
  "resolve_reader (LogError msg s) h = resolve_reader s h"
  by (simp add: resolve_reader_def FindReader_def LogError_def)

lemma resolve_reader_set_offset:
  assumes "FindReader h s = Some i"
  shows "resolve_reader (set_reader_offset i off s) h =
           Some ((snd (active_reader_handles s ! i))\<lparr>rd_offset := off\<rparr>)"
proof -
  from assms have i: "i < length (active_reader_handles s)"
    by (auto simp: FindReader_def dest: FindHandle_Some_iff)
  have "FindReader h (set_reader_offset i off s) = Some i"
    using assms by (simp add: FindReader_def set_reader_offset_def FindHandle_update_snd)
  then show ?thesis
    using i by (simp add: resolve_reader_def set_reader_offset_def)
qed

lemma resolve_reader_SomeD:
  "resolve_reader s h = Some r \<Longrightarrow>
     \<exists>i. FindReader h s = Some i \<and> snd (active_reader_handles s ! i) = r"
  by (auto simp: resolve_reader_def)

subsection \<open>Closing a stream twice\<close>

lemma FindHandle_map_of:
  "map_option (\<lambda>i. snd (xs ! i)) (FindHandle h xs) = map_of xs h"
  by (induction xs) (auto simp: option.map_comp comp_def)

lemma FindHandle_None_iff: "FindHandle h xs = None \<longleftrightarrow> h \<notin> fst ` set xs"
  by (induction xs) auto

lemma EraseRemove_snoc:
  "EraseRemove i (ys @ [l]) = (if i < length ys then ys[i := l] else ys)"
  by (auto simp: EraseRemove_def list_update_append split: nat.split)

lemma EraseRemove_fst:
  assumes "i < length xs" "distinct (map fst xs)"
  shows "distinct (map fst (EraseRemove i xs))
         \<and> set (EraseRemove i xs) = set xs - {xs ! i}
         \<and> length (EraseRemove i xs) = length xs - 1"
proof -
  from assms(1) obtain ys l where xs: "xs = ys @ [l]"
    by (cases xs rule: rev_cases) auto
  show ?thesis
  proof (cases "i < length ys")
    case True
    have d: "distinct (map fst ys)" "fst l \<notin> fst ` set ys" using assms(2) xs by auto
    have dy: "distinct ys" using d(1) by (simp add: distinct_map)
    have "map fst (ys[i := l]) = (map fst ys)[i := fst l]" by (simp add: map_update)
    moreover have "distinct ((map fst ys)[i := fst l])"
      using d by (intro distinct_list_update) auto
    moreover have "set (ys[i := l]) = insert l (set ys - {ys ! i})"
      using dy True by (rule set_update_distinct)
    moreover have "l \<notin> set ys" using d(2) by force
    moreover have "ys ! i \<in> set ys" using True by simp
    ultimately show ?thesis using True xs
      by (auto simp: EraseRemove_snoc nth_append)
  next
    case False
    with assms(1) xs have i: "i = length ys" by simp
    have "l \<notin> set ys" using assms(2) xs by force
    then show ?thesis using assms(2) xs i
      by (auto simp: EraseRemove_snoc)
  qed
qed


lemma map_of_removed_key:
  assumes "distinct (map fst xs)" and "set ys = set xs - {p}" and "p \<in> set xs"
  shows "map_of ys (fst p) = None"
proof -
  have "fst p \<notin> fst ` set ys"
  proof
    assume "fst p \<in> fst ` set ys"
    then obtain q where q: "q \<in> set ys" "fst q = fst p" by auto
    with assms(2) have "q \<in> set xs" "q \<noteq> p" by auto
    moreover have "q = p"
    proof -
      have "(fst q, snd q) \<in> set xs"
        using \<open>q \<in> set xs\<close> by simp
      then have "(fst p, snd q) \<in> set xs"
        by (simp only: q(2))
      moreover have "(fst p, snd p) \<in> set xs"
        using assms(3) by simp
      ultimately have "snd q = snd p"
        by (rule eq_key_imp_eq_value [OF assms(1)])
      with q(2) show ?thesis by (simp add: prod_eq_iff)
    qed
    ultimately show False by simp
  qed
  then show ?thesis by (simp add: map_of_eq_None_iff)
qed



lemma map_of_other_key:
  assumes "distinct (map fst xs)" and "distinct (map fst ys)"
    and "set ys = set xs - {p}" and "k \<noteq> fst p"
  shows "map_of ys k = map_of xs k"
proof (cases "map_of xs k")
  case None
  then have "k \<notin> fst ` set xs" by (simp add: map_of_eq_None_iff)
  with assms(3) have "k \<notin> fst ` set ys" by auto
  then have "map_of ys k = None" by (simp add: map_of_eq_None_iff)
  with None show ?thesis by simp
next
  case (Some v)
  then have "(k, v) \<in> set xs" by (rule map_of_SomeD)
  moreover have "(k, v) \<noteq> p" using assms(4) by auto
  ultimately have "(k, v) \<in> set ys" using assms(3) by simp
  with assms(2) have "map_of ys k = Some v" by (rule map_of_is_SomeI)
  with Some show ?thesis by simp
qed
lemma resolve_reader_map_of: "resolve_reader s h = map_of (active_reader_handles s) h"
  by (simp add: resolve_reader_def FindReader_def FindHandle_map_of)

lemma resolve_writer_map_of: "resolve_writer s h = map_of (active_writer_handles s) h"
  by (simp add: resolve_writer_def FindWriter_def FindHandle_map_of)

lemma FindHandle_None_map_of: "FindHandle h xs = None \<longleftrightarrow> map_of xs h = None"
  by (simp add: FindHandle_None_iff map_of_eq_None_iff)

lemma fclose_not_found:
  assumes "bIsConnected s \<noteq> 0" and "h \<noteq> 0"
    and "map_of (active_reader_handles s) h = None"
    and "map_of (active_writer_handles s) h = None"
  shows "driver_fclose s h = Some (LogError (Msg ''Cannot identify stream.'') s, kCloseEOF)"
  using assms
  by (simp add: driver_fclose_def FindReader_def FindWriter_def FindHandle_None_map_of [symmetric])

text \<open>
  C9. Let the live stream objects have pairwise different addresses, and let closing
  handle \<open>h\<close> succeed. Then closing \<open>h\<close> again returns \<^verbatim>\<open>kCloseEOF\<close> with the message
  "Cannot identify stream." (and does not abort), \<open>h\<close> resolves neither to a reader nor
  to a writer, every other handle resolves to the same reader or writer as before the
  close, and the two handle vectors together hold exactly one entry less.
\<close>

theorem fclose_then_handle_is_gone:
  assumes "handles_distinct s" and "driver_fclose s h = Some (s', kCloseSuccess)"
  shows "driver_fclose s' h = Some (LogError (Msg ''Cannot identify stream.'') s', kCloseEOF)
         \<and> resolve_reader s' h = None \<and> resolve_writer s' h = None
         \<and> (\<forall>k. k \<noteq> h \<longrightarrow> resolve_reader s' k = resolve_reader s k
                            \<and> resolve_writer s' k = resolve_writer s k)
         \<and> length (active_reader_handles s') + length (active_writer_handles s') + 1 =
             length (active_reader_handles s) + length (active_writer_handles s)"
proof -
  let ?R = "active_reader_handles s" and ?W = "active_writer_handles s"
  from assms(2) have conn: "bIsConnected s \<noteq> 0" and h0: "h \<noteq> 0"
    by (auto simp: driver_fclose_def split: if_splits)
  from assms(1) have dR: "distinct (map fst ?R)" and dW: "distinct (map fst ?W)"
    and disj: "fst ` set ?R \<inter> fst ` set ?W = {}"
    by (auto simp: handles_distinct_def)
  show ?thesis
  proof (cases "FindReader h s")
    case (Some pos)
    with assms(2) conn h0
    have s': "s' = s\<lparr>active_reader_handles := EraseRemove pos ?R\<rparr>"
      by (simp add: driver_fclose_def)
    from Some have pos: "pos < length ?R" "fst (?R ! pos) = h"
      by (auto simp: FindReader_def dest: FindHandle_Some_iff)
    note er = EraseRemove_fst [OF pos(1) dR]
    have mem: "?R ! pos \<in> set ?R" using pos(1) by simp
    have gone: "map_of (EraseRemove pos ?R) h = None"
      using map_of_removed_key [OF dR _ mem] er pos(2) by simp
    have other: "map_of (EraseRemove pos ?R) k = map_of ?R k" if "k \<noteq> h" for k
      using map_of_other_key [OF dR _ _ , of "EraseRemove pos ?R" "?R ! pos" k] er pos(2) that
      by simp
    have "h \<in> fst ` set ?R" using mem pos(2) by force
    with disj have wnone: "map_of ?W h = None"
      by (auto simp: map_of_eq_None_iff)
    have len: "length (EraseRemove pos ?R) + 1 = length ?R"
      using er pos(1) by simp
    have again: "driver_fclose s' h = Some (LogError (Msg ''Cannot identify stream.'') s', kCloseEOF)"
      using conn h0 gone wnone by (intro fclose_not_found) (simp_all add: s')
    show ?thesis
      using again gone wnone other len
      by (simp add: resolve_reader_map_of resolve_writer_map_of s')
  next
    case None
    with assms(2) conn h0 obtain pos where fw: "FindWriter h s = Some pos"
      and s': "s' = s\<lparr>active_writer_handles := EraseRemove pos ?W\<rparr>"
      by (auto simp: driver_fclose_def split: option.splits)
    from fw have pos: "pos < length ?W" "fst (?W ! pos) = h"
      by (auto simp: FindWriter_def dest: FindHandle_Some_iff)
    note er = EraseRemove_fst [OF pos(1) dW]
    have mem: "?W ! pos \<in> set ?W" using pos(1) by simp
    have gone: "map_of (EraseRemove pos ?W) h = None"
      using map_of_removed_key [OF dW _ mem] er pos(2) by simp
    have other: "map_of (EraseRemove pos ?W) k = map_of ?W k" if "k \<noteq> h" for k
      using map_of_other_key [OF dW _ _ , of "EraseRemove pos ?W" "?W ! pos" k] er pos(2) that
      by simp
    from None have rnone: "map_of ?R h = None"
      by (simp add: FindReader_def FindHandle_None_map_of)
    have len: "length (EraseRemove pos ?W) + 1 = length ?W"
      using er pos(1) by simp
    have again: "driver_fclose s' h = Some (LogError (Msg ''Cannot identify stream.'') s', kCloseEOF)"
      using conn h0 gone rnone by (intro fclose_not_found) (simp_all add: s')
    show ?thesis
      using again gone rnone other len
      by (simp add: resolve_reader_map_of resolve_writer_map_of s')
  qed
qed

theorem fclose_then_handle_is_gone_witness:
  "handles_distinct three_streams
   \<and> driver_fclose three_streams 1 = Some (three_streams_closed, kCloseSuccess)
   \<and> driver_fclose three_streams_closed 1 =
       Some (LogError (Msg ''Cannot identify stream.'') three_streams_closed, kCloseEOF)
   \<and> resolve_reader three_streams_closed 1 = None
   \<and> resolve_reader three_streams_closed 2 = resolve_reader three_streams 2
   \<and> resolve_reader three_streams_closed 3 = resolve_reader three_streams 3
   \<and> resolve_writer three_streams_closed 4 = resolve_writer three_streams 4"
proof -
  have d: "handles_distinct three_streams"
    by (simp add: handles_distinct_def three_streams_def)
  have c: "driver_fclose three_streams 1 = Some (three_streams_closed, kCloseSuccess)"
    by (simp add: driver_fclose_def three_streams_def three_streams_closed_def FindReader_def
        EraseRemove_def kTrue_def)
  note t = fclose_then_handle_is_gone [OF d c]
  from t have again: "driver_fclose three_streams_closed 1 =
      Some (LogError (Msg ''Cannot identify stream.'') three_streams_closed, kCloseEOF)"
    by blast
  from t have gone: "resolve_reader three_streams_closed 1 = None"
    by blast
  from t have other: "\<forall>k. k \<noteq> 1 \<longrightarrow>
      resolve_reader three_streams_closed k = resolve_reader three_streams k
      \<and> resolve_writer three_streams_closed k = resolve_writer three_streams k"
    by blast
  have "resolve_reader three_streams_closed 2 = resolve_reader three_streams 2"
    and "resolve_reader three_streams_closed 3 = resolve_reader three_streams 3"
    and "resolve_writer three_streams_closed 4 = resolve_writer three_streams 4"
    using other by simp_all
  with d c again gone show ?thesis by blast
qed


subsection \<open>Opening a writer\<close>

text \<open>
  C8. For every container and part name: if the part exists (and the request is not
  failed by the transport), opening a writer in append mode returns a writer bound to
  that part and leaves the store as it is, so that nothing is truncated; and whenever
  the response to \<^verbatim>\<open>Create\<close> says that the blob was not created, opening in write mode
  fails with the status and reason of that response.
\<close>

theorem MakeWriterPtr_append_and_write:
  "(find_blob st container name = Some item \<longrightarrow>
      refuses st (ReqCreateIfNotExists container name) = None \<longrightarrow>
      MakeWriterPtr st container name kAppend =
        (st, Inr \<lparr>wr_bucketname = container, wr_filename = name\<rparr>))
   \<and> (Create st container name = Inr (response, st') \<longrightarrow> \<not> Created response \<longrightarrow>
        MakeWriterPtr st container name kWrite =
          (st', Inl (HttpFailure (RawStatusCode response) (RawReasonPhrase response))))"
  by (simp add: MakeWriterPtr_def CreateIfNotExists_def)

lemma find_blob_two_parts:
  "find_blob two_parts_store ''bucket'' ''data-1.txt'' =
     Some \<lparr>Name = ''data-1.txt'', IsDeleted = False, Content = part1\<rparr>"
  by (simp add: find_blob_def two_parts_store_def two_parts_def)

theorem MakeWriterPtr_append_and_write_witness:
  "MakeWriterPtr two_parts_store ''bucket'' ''data-1.txt'' kAppend =
     (two_parts_store, Inr \<lparr>wr_bucketname = ''bucket'', wr_filename = ''data-1.txt''\<rparr>)
   \<and> MakeWriterPtr (two_parts_store\<lparr>create_answer := not_created_answer\<rparr>) ''bucket''
        ''data-1.txt'' kWrite =
       (two_parts_store\<lparr>create_answer := not_created_answer\<rparr>,
        Inl (HttpFailure Conflict ''The specified blob already exists.''))"
proof -
  let ?st = "two_parts_store\<lparr>create_answer := not_created_answer\<rparr>"
  let ?resp = "not_created_answer ''bucket'' ''data-1.txt''"
  have r: "refuses two_parts_store (ReqCreateIfNotExists ''bucket'' ''data-1.txt'') = None"
    by (simp add: two_parts_store_def no_refusal_def)
  have c: "Create ?st ''bucket'' ''data-1.txt'' = Inr (?resp, ?st)"
    by (simp add: Create_def two_parts_store_def no_refusal_def not_created_answer_def)
  have n: "\<not> Created ?resp"
    by (simp add: not_created_answer_def)
  from MakeWriterPtr_append_and_write
         [of two_parts_store "''bucket''" "''data-1.txt''" _ ?resp two_parts_store]
       find_blob_two_parts r
  have A: "MakeWriterPtr two_parts_store ''bucket'' ''data-1.txt'' kAppend =
     (two_parts_store, Inr \<lparr>wr_bucketname = ''bucket'', wr_filename = ''data-1.txt''\<rparr>)"
    by blast
  from MakeWriterPtr_append_and_write [of ?st "''bucket''" "''data-1.txt''" _ ?resp ?st] c n
  have B: "MakeWriterPtr ?st ''bucket'' ''data-1.txt'' kWrite =
       (?st, Inl (HttpFailure (RawStatusCode ?resp) (RawReasonPhrase ?resp)))"
    by blast
  show ?thesis using A B by (simp add: not_created_answer_def)
qed

subsection \<open>Opening in append mode with a pattern\<close>

lemma FilterList_cases:
  "FilterList glob st container pattern pos =
     (case refuses st (ReqListBlobs container (take pos pattern)) of
        Some e \<Rightarrow> Inl (MakeDriverFailureFromException e)
      | None \<Rightarrow>
          if matching_blobs glob st container pattern pos = []
          then Inl (HttpFailure NotFound ''No blob matching pattern in container.'')
          else Inr (matching_blobs glob st container pattern pos))"
  by (simp add: FilterList_def ListBlobs_def matching_blobs_def Let_def split: option.splits)

lemma find_blob_matching:
  assumes "item \<in> set (matching_blobs glob st container pattern pos)"
  shows "\<exists>found. find_blob st container (Name item) = Some found"
proof -
  from assms have "item \<in> set (containers st container)" "\<not> IsDeleted item"
    by (auto simp: matching_blobs_def)
  then have "\<exists>x \<in> set (containers st container). Name x = Name item \<and> \<not> IsDeleted x"
    by blast
  then have "List.find (\<lambda>x. Name x = Name item \<and> \<not> IsDeleted x) (containers st container) \<noteq> None"
    by (auto simp: find_None_iff)
  then show ?thesis by (auto simp: find_blob_def)
qed

lemma MakeWriterPtr_append_cases:
  assumes "find_blob st container name = Some found"
  shows "MakeWriterPtr st container name kAppend =
           (case refuses st (ReqCreateIfNotExists container name) of
              Some e \<Rightarrow> (st, Inl (MakeDriverFailureFromException e))
            | None \<Rightarrow> (st, Inr \<lparr>wr_bucketname = container, wr_filename = name\<rparr>))"
  using assms by (simp add: MakeWriterPtr_def CreateIfNotExists_def split: option.splits)

text \<open>
  C10. Let the driver be connected and the object name of the URI hold an unescaped
  special character at \<open>pos\<close>, and let \<open>ms\<close> be the blobs that match, in listing order.
  If opening in append mode returns a handle other than \<^verbatim>\<open>nullptr\<close>, then \<open>ms\<close> is not
  empty, the handle is the address of the new writer, that writer is bound to the name
  of the last blob of \<open>ms\<close>, it is the one entry added to the writer handles, and the
  store is unchanged (no part is created). If \<open>ms\<close> is empty, the result is
  \<^verbatim>\<open>nullptr\<close> and neither handle vector changes.
\<close>

theorem fopen_append_binds_last_match:
  assumes "bIsConnected s \<noteq> kFalse"
    and "ParseAzureUri uri = Inr names"
    and "FindPatternSpecialChar (parsed_object names) = Some pos"
    and "driver_fopen glob st s addr (Some uri) (CHR ''a'') = (st', s', h)"
    and "ms = matching_blobs glob st (parsed_bucket names) (parsed_object names) pos"
  shows "(h \<noteq> 0 \<longrightarrow>
            ms \<noteq> [] \<and> h = addr \<and> st' = st
            \<and> active_writer_handles s' =
                active_writer_handles s
                @ [(addr, \<lparr>wr_bucketname = parsed_bucket names, wr_filename = Name (last ms)\<rparr>)])
         \<and> (ms = [] \<longrightarrow>
              h = 0 \<and> st' = st
              \<and> active_writer_handles s' = active_writer_handles s
              \<and> active_reader_handles s' = active_reader_handles s)"
proof (cases "refuses st (ReqListBlobs (parsed_bucket names) (take pos (parsed_object names)))")
  case (Some e)
  with assms(1-4) have "h = 0" "st' = st" "s' = LogBadResult (MakeDriverFailureFromException e)
      ''Error while opening stream in append mode.'' s"
    by (simp_all add: driver_fopen_def FilterList_cases)
  then show ?thesis by (simp add: LogBadResult_def LogError_def)
next
  case None
  show ?thesis
  proof (cases "ms = []")
    case True
    with None assms have "h = 0" "st' = st" "s' = LogBadResult
        (HttpFailure NotFound ''No blob matching pattern in container.'')
        ''Error while opening stream in append mode.'' s"
      by (simp_all add: driver_fopen_def FilterList_cases)
    with True show ?thesis by (simp add: LogBadResult_def LogError_def)
  next
    case False
    then have "last ms \<in> set ms" by simp
    with assms(5) obtain found where
      found: "find_blob st (parsed_bucket names) (Name (last ms)) = Some found"
      using find_blob_matching by blast
    note mw = MakeWriterPtr_append_cases [OF found]
    show ?thesis
    proof (cases "refuses st (ReqCreateIfNotExists (parsed_bucket names) (Name (last ms)))")
      case (Some e)
      with None False assms mw have "h = 0"
        by (simp add: driver_fopen_def FilterList_cases RegisterWriter_def)
      with False show ?thesis by simp
    next
      case None': None
      with None False assms mw
      have "h = addr" "st' = st"
        "s' = s\<lparr>active_writer_handles := PushBackHandle addr
                \<lparr>wr_bucketname = parsed_bucket names, wr_filename = Name (last ms)\<rparr>
                (active_writer_handles s)\<rparr>"
        by (auto simp: driver_fopen_def FilterList_cases RegisterWriter_def)
      with False show ?thesis by (simp add: PushBackHandle_def)
    qed
  qed
qed

lemma special_data_star: "FindPatternSpecialChar ''data-*'' = Some 5"
  by (simp add: FindPatternSpecialChar_def FindPatternSpecialChar_from.simps find_first_of_def
      special_chars_def)

lemma special_none_star: "FindPatternSpecialChar ''none-*'' = Some 5"
  by (simp add: FindPatternSpecialChar_def FindPatternSpecialChar_from.simps find_first_of_def
      special_chars_def)

lemma parse_emulator_uri:
  "ParseAzureUri (emulator_uri pattern) =
     Inr \<lparr>parsed_service = BLOB, parsed_bucket = ''bucket'', parsed_object = pattern\<rparr>"
  by (simp add: ParseAzureUri_def emulator_uri_def compare_suffix_def find_first_of_def Let_def)

lemma matching_data_star:
  "matching_blobs prefix_glob two_parts_store ''bucket'' ''data-*'' 5 = two_parts"
  by (simp add: matching_blobs_def prefix_glob_def special_data_star two_parts_store_def
      two_parts_def)

lemma matching_none_star:
  "matching_blobs prefix_glob two_parts_store ''bucket'' ''none-*'' 5 = []"
  by (simp add: matching_blobs_def prefix_glob_def special_none_star two_parts_store_def
      two_parts_def)


lemma connected_state_connected: "bIsConnected connected_state \<noteq> kFalse"
  by (simp add: connected_state_def kTrue_def kFalse_def)

lemma fopen_data_star:
  "driver_fopen prefix_glob two_parts_store connected_state 7 (Some (emulator_uri ''data-*''))
     (CHR ''a'') =
   (two_parts_store,
    connected_state\<lparr>active_writer_handles :=
      [(7, \<lparr>wr_bucketname = ''bucket'', wr_filename = ''data-1.txt''\<rparr>)]\<rparr>, 7)"
proof -
  have r: "refuses two_parts_store req = None" for req
    by (simp add: two_parts_store_def no_refusal_def)
  have l: "Name (last two_parts) = ''data-1.txt''"
    by (simp add: two_parts_def)
  have n: "two_parts \<noteq> []"
    by (simp add: two_parts_def)
  show ?thesis
    using connected_state_connected
    by (simp add: driver_fopen_def parse_emulator_uri special_data_star FilterList_cases
        matching_data_star r l n RegisterWriter_def MakeWriterPtr_append_cases [OF find_blob_two_parts]
        PushBackHandle_def connected_state_def)
qed

lemma fopen_none_star:
  "driver_fopen prefix_glob two_parts_store connected_state 7 (Some (emulator_uri ''none-*''))
     (CHR ''a'') =
   (two_parts_store,
    LogBadResult (HttpFailure NotFound ''No blob matching pattern in container.'')
      ''Error while opening stream in append mode.'' connected_state, 0)"
proof -
  have r: "refuses two_parts_store req = None" for req
    by (simp add: two_parts_store_def no_refusal_def)
  show ?thesis
    using connected_state_connected
    by (simp add: driver_fopen_def parse_emulator_uri special_none_star FilterList_cases
        matching_none_star r)
qed

theorem fopen_append_binds_last_match_witness:
  "snd (snd (driver_fopen prefix_glob two_parts_store connected_state 7
       (Some (emulator_uri ''data-*'')) (CHR ''a''))) = 7
   \<and> active_writer_handles (fst (snd (driver_fopen prefix_glob two_parts_store connected_state 7
       (Some (emulator_uri ''data-*'')) (CHR ''a'')))) =
       [(7, \<lparr>wr_bucketname = ''bucket'', wr_filename = ''data-1.txt''\<rparr>)]
   \<and> snd (snd (driver_fopen prefix_glob two_parts_store connected_state 7
       (Some (emulator_uri ''none-*'')) (CHR ''a''))) = 0
   \<and> active_writer_handles (fst (snd (driver_fopen prefix_glob two_parts_store connected_state 7
       (Some (emulator_uri ''none-*'')) (CHR ''a'')))) = []"
proof -
  have seven: "(7::nat) \<noteq> 0" by simp
  from fopen_append_binds_last_match
    [OF connected_state_connected parse_emulator_uri _ fopen_data_star refl, of 5]
    special_data_star seven
  have A: "active_writer_handles (connected_state\<lparr>active_writer_handles :=
      [(7, \<lparr>wr_bucketname = ''bucket'', wr_filename = ''data-1.txt''\<rparr>)]\<rparr>) =
      active_writer_handles connected_state
      @ [(7, \<lparr>wr_bucketname = ''bucket'',
              wr_filename = Name (last (matching_blobs prefix_glob two_parts_store ''bucket''
                  ''data-*'' 5))\<rparr>)]"
    by simp
  from fopen_append_binds_last_match
    [OF connected_state_connected parse_emulator_uri _ fopen_none_star refl, of 5]
    special_none_star matching_none_star
  have B: "active_writer_handles (LogBadResult
      (HttpFailure NotFound ''No blob matching pattern in container.'')
      ''Error while opening stream in append mode.'' connected_state) =
      active_writer_handles connected_state"
    by simp
  show ?thesis
    unfolding fopen_data_star fopen_none_star
    using A B by (simp add: matching_data_star two_parts_def connected_state_def)
qed

subsection \<open>A failing download\<close>

lemma read_range_and_update_requests:
  assumes "read_range_and_update st container filename a l rp = (rp', status)"
    and "\<forall>q \<in> set (rp_requests rp). \<not> download_fails st q"
  shows "status = None \<longrightarrow> (\<forall>q \<in> set (rp_requests rp'). \<not> download_fails st q)"
  using assms
  by (auto simp: read_range_and_update_def Let_def split: sum.splits prod.splits)

lemma ReadBytesInFile_loop_requests:
  assumes "ReadBytesInFile_loop st multifile idx rp = (rp', status)"
    and "\<forall>q \<in> set (rp_requests rp). \<not> download_fails st q"
  shows "(\<forall>e. status \<noteq> Threw e) \<longrightarrow> (\<forall>q \<in> set (rp_requests rp'). \<not> download_fails st q)"
  using assms
proof (induction st multifile idx rp rule: ReadBytesInFile_loop.induct)
  case (1 st multifile idx rp)
  show ?case
  proof (cases "rp_to_read rp = 0
      \<or> length (rd_cumulativeSize multifile) \<le> idx + 1
      \<or> length (rd_filenames multifile) \<le> idx + 1")
    case True
    with "1.prems" show ?thesis
      by (auto simp: ReadBytesInFile_loop.simps [of st multifile idx rp] split: if_splits)
  next
    case False
    obtain rp1 st1 where step: "read_range_and_update st (rd_bucketname multifile)
        (rd_filenames multifile ! (idx + 1)) (rd_commonHeaderLength multifile)
        (min (rp_to_read rp)
           (rd_cumulativeSize multifile ! (idx + 1) - rd_cumulativeSize multifile ! idx)) rp
        = (rp1, st1)"
      by (cases "read_range_and_update st (rd_bucketname multifile)
        (rd_filenames multifile ! (idx + 1)) (rd_commonHeaderLength multifile)
        (min (rp_to_read rp)
           (rd_cumulativeSize multifile ! (idx + 1) - rd_cumulativeSize multifile ! idx)) rp")
    show ?thesis
    proof (cases st1)
      case None
      from read_range_and_update_requests [OF step "1.prems"(2)] None
      have ok: "\<forall>q \<in> set (rp_requests rp1). \<not> download_fails st q" by simp
      from False step None "1.prems"(1)
      have rec: "ReadBytesInFile_loop st multifile (idx + 1) rp1 = (rp', status)"
        by (simp add: ReadBytesInFile_loop.simps [of st multifile idx rp])
      from False step None have
        "(\<forall>e. status \<noteq> Threw e) \<longrightarrow> (\<forall>q \<in> set (rp_requests rp'). \<not> download_fails st q)"
        by (intro "1.IH" [OF _ _ _ _ rec ok]) (auto simp: not_le)
      then show ?thesis .
    next
      case (Some e)
      with False step "1.prems"(1) have "status = Threw e"
        by (simp add: ReadBytesInFile_loop.simps [of st multifile idx rp])
      then show ?thesis by simp
    qed
  qed
qed

text \<open>
  C5. If any download request that \<^verbatim>\<open>ReadBytesInFile\<close> sends during a call is failed by
  the transport, whether it is the first request or one for a later part, then the call
  reports a failure and the reader after the call is the reader before the call: the
  cursor offset has its value at call entry.
\<close>

theorem ReadBytesInFile_failure_restores_offset:
  assumes "ReadBytesInFile st multifile buffer to_read = ((multifile', buffer', reqs), res)"
    and "q \<in> set reqs" and "download_fails st q"
  shows "rd_offset multifile' = rd_offset multifile \<and> multifile' = multifile
         \<and> (\<exists>f. res = ReadFailure f)"
proof -
  let ?idx = "upper_bound (rd_cumulativeSize multifile) (rd_offset multifile)"
  let ?rp = "\<lparr>rp_offset = rd_offset multifile, rp_buffer = buffer, rp_buffer_pos = 0,
               rp_to_read = to_read, rp_requests = []\<rparr>"
  show ?thesis
  proof (cases "length (rd_cumulativeSize multifile) \<le> ?idx
      \<or> length (rd_filenames multifile) \<le> ?idx")
    case True
    with assms(1) have "reqs = []"
      by (auto simp: ReadBytesInFile_def Let_def)
    with assms(2) show ?thesis by simp
  next
    case False
    obtain rp1 st1 where step: "read_range_and_update st (rd_bucketname multifile)
        (rd_filenames multifile ! ?idx)
        (if ?idx = 0 then rd_offset multifile
         else rd_offset multifile - rd_cumulativeSize multifile ! (?idx - 1)
                + rd_commonHeaderLength multifile)
        (min to_read (rd_cumulativeSize multifile ! ?idx - rd_offset multifile)) ?rp = (rp1, st1)"
      by (rule prod.exhaust)
    have ok0: "\<forall>q \<in> set (rp_requests ?rp). \<not> download_fails st q" by simp
    show ?thesis
    proof (cases st1)
      case (Some e)
      with False step assms(1) show ?thesis
        by (auto simp: ReadBytesInFile_def Let_def)
    next
      case None
      from read_range_and_update_requests [OF step ok0] None
      have ok1: "\<forall>q \<in> set (rp_requests rp1). \<not> download_fails st q" by simp
      obtain rp2 status where loop: "ReadBytesInFile_loop st multifile ?idx rp1 = (rp2, status)"
        by (rule prod.exhaust)
      from False step None loop assms(1) have reqs: "reqs = rp_requests rp2"
        by (auto simp: ReadBytesInFile_def Let_def split: read_status.splits)
      from ReadBytesInFile_loop_requests [OF loop ok1] reqs assms(2,3)
      obtain e where "status = Threw e" by blast
      with False step None loop assms(1) show ?thesis
        by (auto simp: ReadBytesInFile_def Let_def)
    qed
  qed
qed

lemma len_part0: "length part0 = 100" "length part1 = 100"
  by (simp_all add: part0_def part1_def header10_def)

lemma find_blob_data0:
  "find_blob (two_parts_store\<lparr>refuses := r\<rparr>) ''bucket'' ''data-0.txt'' =
     Some \<lparr>Name = ''data-0.txt'', IsDeleted = False, Content = part0\<rparr>"
  "find_blob (two_parts_store\<lparr>refuses := r\<rparr>) ''bucket'' ''data-1.txt'' =
     Some \<lparr>Name = ''data-1.txt'', IsDeleted = False, Content = part1\<rparr>"
  by (simp_all add: find_blob_def two_parts_store_def two_parts_def)

lemma slice_part0: "drop 95 part0 = ''vwxyz''"
  by (simp add: part0_def header10_def)

lemma slice_part1: "take 15 (drop 10 part1) = ''ABCDEFGHIJKLMNO''"
  by (simp add: part1_def header10_def)

lemma read_with_failure:
  "ReadBytesInFile (two_parts_store\<lparr>refuses := second_part_fails\<rparr>)
     (two_parts_reader\<lparr>rd_offset := 95\<rparr>) (replicate 20 (CHR ''.'')) 20 =
   ((two_parts_reader\<lparr>rd_offset := 95\<rparr>, ''vwxyz'' @ replicate 15 (CHR ''.''),
     [ReqDownload ''bucket'' ''data-0.txt'' 95 5, ReqDownload ''bucket'' ''data-1.txt'' 10 15]),
    ReadFailure (HttpFailure HttpNone ''Connection reset''))"
  by (simp add: ReadBytesInFile_def two_parts_reader_def make_Reader_def upper_bound_def
      read_range_and_update_def DownloadTo_def find_blob_data0 second_part_fails_def
      BlobSize_def len_part0 slice_part0 write_at_def ReadBytesInFile_loop.simps Let_def)


theorem ReadBytesInFile_failure_restores_offset_witness:
  "ReadBytesInFile (two_parts_store\<lparr>refuses := second_part_fails\<rparr>)
     (two_parts_reader\<lparr>rd_offset := 95\<rparr>) (replicate 20 (CHR ''.'')) 20 =
   ((two_parts_reader\<lparr>rd_offset := 95\<rparr>, ''vwxyz'' @ replicate 15 (CHR ''.''),
     [ReqDownload ''bucket'' ''data-0.txt'' 95 5, ReqDownload ''bucket'' ''data-1.txt'' 10 15]),
    ReadFailure (HttpFailure HttpNone ''Connection reset''))
   \<and> download_fails (two_parts_store\<lparr>refuses := second_part_fails\<rparr>)
        (ReqDownload ''bucket'' ''data-1.txt'' 10 15)
   \<and> rd_offset (fst (fst (ReadBytesInFile (two_parts_store\<lparr>refuses := second_part_fails\<rparr>)
        (two_parts_reader\<lparr>rd_offset := 95\<rparr>) (replicate 20 (CHR ''.'')) 20))) = 95"
proof -
  let ?st = "two_parts_store\<lparr>refuses := second_part_fails\<rparr>"
  let ?q = "ReqDownload ''bucket'' ''data-1.txt'' 10 15"
  have m: "?q \<in> set [ReqDownload ''bucket'' ''data-0.txt'' 95 5, ?q]" by simp
  have f: "download_fails ?st ?q"
    by (simp add: DownloadTo_def second_part_fails_def)
  from ReadBytesInFile_failure_restores_offset [OF read_with_failure m f]
  have "rd_offset (two_parts_reader\<lparr>rd_offset := 95\<rparr>) = 95"
    by simp
  with read_with_failure f show ?thesis by simp
qed

subsection \<open>Reading at most the rest of the stream\<close>

lemma no_product_overflow:
  assumes "0 < a" and "0 < b" and "int (a * b) \<le> max_val"
  shows "\<not> WillSizeCountProductOverflow a b"
proof -
  from assms(3) have le: "a * b \<le> nat max_val" by linarith
  have "b \<le> nat max_val div a"
    using assms(1) le by (simp add: less_eq_div_iff_mult_less_eq mult.commute)
  moreover have "a \<le> nat max_val div b"
    using assms(2) le by (simp add: less_eq_div_iff_mult_less_eq)
  ultimately show ?thesis
    by (simp add: WillSizeCountProductOverflow_def not_less)
qed

lemma wrap64_small: "0 \<le> x \<Longrightarrow> x \<le> max_val \<Longrightarrow> wrap64 x = x"
  by (rule wrap64_id) (simp add: is_int64_def min_val_def)

lemma resolve_reader_set_reader:
  assumes "FindReader h s = Some i"
  shows "resolve_reader (set_reader i reader s) h = Some reader"
proof -
  from assms have i: "i < length (active_reader_handles s)"
    by (auto simp: FindReader_def dest: FindHandle_Some_iff)
  have "FindReader h (set_reader i reader s) = Some i"
    using assms by (simp add: FindReader_def set_reader_def FindHandle_update_snd)
  then show ?thesis
    using i by (simp add: resolve_reader_def set_reader_def)
qed

text \<open>
  C4 (as amended). For every open reader with a cursor offset of at least 0, and every
  read request of \<open>item_size * count > 0\<close> bytes that does not exceed the largest 64-bit
  value minus the offset (larger requests are refused by the overflow guards):
  \<^verbatim>\<open>driver_fread\<close> returns \<^verbatim>\<open>kBadSize\<close> when the offset is at or past the total size;
  otherwise it asks \<^verbatim>\<open>ReadBytesInFile\<close> for the smaller of the request and the rest of the
  stream and, when that call succeeds, returns exactly that number, with the caller's
  buffer and the reader as \<^verbatim>\<open>ReadBytesInFile\<close> left them.
\<close>

theorem fread_clamps_to_remaining:
  assumes "bIsConnected s \<noteq> kFalse" and "stream \<noteq> 0"
    and "resolve_reader s stream = Some reader"
    and "0 < item_size" and "0 < count"
    and "0 \<le> rd_offset reader"
    and "int (item_size * count) \<le> max_val - rd_offset reader"
    and "rd_total_size reader \<le> max_val"
  shows "(rd_total_size reader \<le> rd_offset reader \<longrightarrow>
            driver_fread st s (Some buffer) item_size count stream =
              Some (LogError (Msg ''Error trying to read more bytes while already out of bounds'') s,
                    Some buffer, kBadSize))
         \<and> (rd_offset reader < rd_total_size reader \<longrightarrow>
              (\<forall>reader' buffer' reqs v.
                 ReadBytesInFile st reader buffer
                   (min (int (item_size * count)) (rd_total_size reader - rd_offset reader)) =
                   ((reader', buffer', reqs), ReadSuccess v) \<longrightarrow>
                 (\<exists>s'. driver_fread st s (Some buffer) item_size count stream =
                         Some (s', Some buffer',
                               min (int (item_size * count))
                                   (rd_total_size reader - rd_offset reader))
                       \<and> resolve_reader s' stream = Some reader')))"
proof -
  let ?T = "int (item_size * count)"
  let ?off = "rd_offset reader" and ?tot = "rd_total_size reader"
  from assms(3) obtain i where i: "FindReader stream s = Some i"
    and r: "snd (active_reader_handles s ! i) = reader"
    by (auto dest: resolve_reader_SomeD)
  have Tpos: "0 < ?T" using assms(4,5) by simp
  have Tmax: "?T \<le> max_val" using assms(6,7) by linarith
  have ovf: "\<not> WillSizeCountProductOverflow item_size count"
    using assms(4,5) Tmax by (rule no_product_overflow)
  have "int (item_size * count) < int 18446744073709551616"
    using Tmax unfolding max_val_def by linarith
  then have "item_size * count < 18446744073709551616"
    unfolding of_nat_less_iff .
  then have md: "(item_size * count) mod 18446744073709551616 = item_size * count"
    by simp
  have w1: "wrap64 ?T = ?T" using Tpos Tmax by (simp add: wrap64_small)
  have w2: "wrap64 (max_val - ?T) = max_val - ?T"
    using Tpos Tmax by (simp add: wrap64_small)
  have w3: "wrap64 (?off + ?T) = ?off + ?T"
    using Tpos assms(6,7) by (simp add: wrap64_small)
  have guard: "\<not> ?off > max_val - ?T" using assms(7) by linarith
  have sz: "item_size \<noteq> 0" "count \<noteq> 0" using assms(4,5) by simp_all
  show ?thesis
  proof (intro conjI impI allI)
    assume "?tot \<le> ?off"
    then show "driver_fread st s (Some buffer) item_size count stream =
        Some (LogError (Msg ''Error trying to read more bytes while already out of bounds'') s,
              Some buffer, kBadSize)"
      using assms(1,2) i r sz ovf guard
      by (simp add: driver_fread_def Let_def md w1 w2 del: of_nat_mult)
  next
    fix reader' buffer' reqs v
    assume lt: "?off < ?tot"
      and rd: "ReadBytesInFile st reader buffer (min ?T (?tot - ?off)) =
                 ((reader', buffer', reqs), ReadSuccess v)"
    have w4: "wrap64 (?tot - ?off) = ?tot - ?off"
      using lt assms(6,8) by (simp add: wrap64_small)
    have "driver_fread st s (Some buffer) item_size count stream =
            Some (set_reader i reader' s, Some buffer', min ?T (?tot - ?off))"
    proof (cases "?tot < ?off + ?T")
      case True
      then have m: "min ?T (?tot - ?off) = ?tot - ?off" by simp
      show ?thesis
        using assms(1,2) i r sz ovf guard lt rd True unfolding m
        by (simp add: driver_fread_def Let_def md w1 w2 w3 w4 del: of_nat_mult)
    next
      case False
      then have m: "min ?T (?tot - ?off) = ?T" by simp
      show ?thesis
        using assms(1,2) i r sz ovf guard lt rd False unfolding m
        by (simp add: driver_fread_def Let_def md w1 w2 w3 w4 del: of_nat_mult)
    qed
    moreover have "resolve_reader (set_reader i reader' s) stream = Some reader'"
      using i by (rule resolve_reader_set_reader)
    ultimately show "\<exists>s'. driver_fread st s (Some buffer) item_size count stream =
        Some (s', Some buffer', min ?T (?tot - ?off))
        \<and> resolve_reader s' stream = Some reader'"
      by blast
  qed
qed


text \<open>
  The claim as stated covers every non-zero request. A request of the largest 64-bit
  size at offset 5 of a stream of 100 bytes is refused by the overflow guard, although
  the offset is below the total size.
\<close>

theorem fread_huge_request_counterexample:
  "driver_fread two_parts_store (one_reader_state 100 5) (Some (replicate 95 (CHR ''.''))) 1
     (nat max_val) 1 =
   Some (LogError (Msg ''signed overflow prevented on reading attempt'') (one_reader_state 100 5),
         Some (replicate 95 (CHR ''.'')), kBadSize)"
  by (simp add: driver_fread_def one_reader_state_def FindReader_def
      WillSizeCountProductOverflow_def make_simple_reader_def make_Reader_def max_val_def
      wrap64_def kTrue_def kFalse_def Let_def)

lemma slice_part1_tail: "take 10 (drop 90 part1) = replicate 10 (CHR ''b'')"
  by (simp add: part1_def header10_def)

lemma find_blob_plain:
  "find_blob two_parts_store ''bucket'' ''data-0.txt'' =
     Some \<lparr>Name = ''data-0.txt'', IsDeleted = False, Content = part0\<rparr>"
  "find_blob two_parts_store ''bucket'' ''data-1.txt'' =
     Some \<lparr>Name = ''data-1.txt'', IsDeleted = False, Content = part1\<rparr>"
  by (simp_all add: find_blob_def two_parts_store_def two_parts_def)

lemma read_tail:
  "ReadBytesInFile two_parts_store (two_parts_reader\<lparr>rd_offset := 180\<rparr>)
     (replicate 20 (CHR ''.'')) 10 =
   ((two_parts_reader\<lparr>rd_offset := 190\<rparr>,
     replicate 10 (CHR ''b'') @ replicate 10 (CHR ''.''),
     [ReqDownload ''bucket'' ''data-1.txt'' 90 10]), ReadSuccess 0)"
proof -
  have r: "refuses two_parts_store req = None" for req
    by (simp add: two_parts_store_def no_refusal_def)
  show ?thesis
    by (simp add: ReadBytesInFile_def two_parts_reader_def make_Reader_def upper_bound_def
        read_range_and_update_def DownloadTo_def find_blob_plain r
        BlobSize_def len_part0 slice_part1_tail write_at_def ReadBytesInFile_loop.simps Let_def)
qed

theorem fread_clamps_to_remaining_witness:
  "driver_fread two_parts_store (two_parts_state 190) (Some (replicate 20 (CHR ''.''))) 4 5 1 =
     Some (LogError (Msg ''Error trying to read more bytes while already out of bounds'')
             (two_parts_state 190), Some (replicate 20 (CHR ''.'')), kBadSize)
   \<and> (\<exists>s'. driver_fread two_parts_store (two_parts_state 180) (Some (replicate 20 (CHR ''.'')))
               4 5 1 =
             Some (s', Some (replicate 10 (CHR ''b'') @ replicate 10 (CHR ''.'')), 10)
           \<and> resolve_reader s' 1 = Some (two_parts_reader\<lparr>rd_offset := 190\<rparr>))"
proof -
  have conn: "bIsConnected (two_parts_state off) \<noteq> kFalse" for off
    by (simp add: two_parts_state_def kTrue_def kFalse_def)
  have res: "resolve_reader (two_parts_state off) 1 = Some (two_parts_reader\<lparr>rd_offset := off\<rparr>)"
    for off
    by (simp add: two_parts_state_def resolve_reader_def FindReader_def)
  have one: "(1::nat) \<noteq> 0" and pos: "(0::nat) < 4" "(0::nat) < 5" by simp_all
  have tot: "rd_total_size (two_parts_reader\<lparr>rd_offset := off\<rparr>) = 190" for off
    by (simp add: two_parts_reader_def make_Reader_def)
  have A: "driver_fread two_parts_store (two_parts_state 190) (Some (replicate 20 (CHR ''.'')))
      4 5 1 =
     Some (LogError (Msg ''Error trying to read more bytes while already out of bounds'')
             (two_parts_state 190), Some (replicate 20 (CHR ''.'')), kBadSize)"
    using fread_clamps_to_remaining [OF conn one res pos, of 190 two_parts_store
        "replicate 20 (CHR ''.'')"]
    by (simp add: tot max_val_def)
  have m: "min (int (4 * 5)) (rd_total_size (two_parts_reader\<lparr>rd_offset := 180\<rparr>)
      - rd_offset (two_parts_reader\<lparr>rd_offset := 180\<rparr>)) = 10"
    by (simp add: tot)
  have B: "\<exists>s'. driver_fread two_parts_store (two_parts_state 180)
             (Some (replicate 20 (CHR ''.''))) 4 5 1 =
             Some (s', Some (replicate 10 (CHR ''b'') @ replicate 10 (CHR ''.'')), 10)
           \<and> resolve_reader s' 1 = Some (two_parts_reader\<lparr>rd_offset := 190\<rparr>)"
    using fread_clamps_to_remaining [OF conn one res pos, of 180 two_parts_store
        "replicate 20 (CHR ''.'')"] read_tail
    unfolding m by (simp add: tot max_val_def)
  from A B show ?thesis by blast
qed

subsection \<open>Seeking from the current position\<close>

text \<open>
  C6 (as amended). For every open reader whose cursor offset is at least 1 (for instance
  5), seeking by the largest 64-bit value from the current position returns
  \<^verbatim>\<open>kBadSize\<close> with the message "Signed overflow prevented", and the handle still
  resolves to the same reader with the same offset. The comparison that detects the
  overflow is made on \<open>max_val - offset\<close>, before any addition.
\<close>

theorem seek_cur_max_val_overflow:
  assumes "bIsConnected s \<noteq> kFalse" and "stream \<noteq> 0"
    and "resolve_reader s stream = Some r"
    and "0 < rd_offset r" and "rd_offset r \<le> max_val"
  shows "driver_fseek s stream max_val ios_cur =
           (LogError (Msg ''Signed overflow prevented'') s, kBadSize)
         \<and> resolve_reader (fst (driver_fseek s stream max_val ios_cur)) stream = Some r"
proof -
  from assms(3) obtain i where i: "FindReader stream s = Some i"
    and r: "snd (active_reader_handles s ! i) = r"
    by (auto dest: resolve_reader_SomeD)
  have "is_int64 (max_val - rd_offset r)"
    using assms(4,5) by (simp add: is_int64_def max_val_def min_val_def)
  then have "wrap64 (max_val - rd_offset r) = max_val - rd_offset r"
    by (rule wrap64_id)
  with assms(4) have "seek_computed_offset r max_val ios_cur = Inl (Msg ''Signed overflow prevented'')"
    by (simp add: seek_computed_offset_def ios_cur_def ios_beg_def)
  with assms(1,2) i r
  have res: "driver_fseek s stream max_val ios_cur =
               (LogError (Msg ''Signed overflow prevented'') s, kBadSize)"
    by (simp add: driver_fseek_def)
  show ?thesis
    unfolding res using assms(3) by simp
qed

theorem seek_cur_max_val_overflow_witness:
  "driver_fseek (one_reader_state 100 5) 1 max_val ios_cur =
     (LogError (Msg ''Signed overflow prevented'') (one_reader_state 100 5), kBadSize)
   \<and> map_option rd_offset
       (resolve_reader (fst (driver_fseek (one_reader_state 100 5) 1 max_val ios_cur)) 1) = Some 5"
proof -
  let ?r = "(make_simple_reader ''bucket'' ''data.txt'' ''data.txt'' 100)\<lparr>rd_offset := 5\<rparr>"
  have a: "bIsConnected (one_reader_state 100 5) \<noteq> kFalse"
    by (simp add: one_reader_state_def kTrue_def kFalse_def)
  have b: "resolve_reader (one_reader_state 100 5) 1 = Some ?r"
    by (simp add: one_reader_state_def resolve_reader_def FindReader_def)
  have c: "0 < rd_offset ?r" "rd_offset ?r \<le> max_val"
    by (simp_all add: max_val_def)
  note t = seek_cur_max_val_overflow [OF a _ b c]
  from t have A: "driver_fseek (one_reader_state 100 5) 1 max_val ios_cur =
      (LogError (Msg ''Signed overflow prevented'') (one_reader_state 100 5), kBadSize)"
    by blast
  from t have B: "resolve_reader (fst (driver_fseek (one_reader_state 100 5) 1 max_val ios_cur)) 1
      = Some ?r"
    by blast
  show ?thesis
    unfolding B using A by simp
qed

text \<open>
  The claim as stated includes offset 0. There the addition cannot overflow, the seek
  succeeds, and the cursor moves to the largest 64-bit value.
\<close>

theorem seek_cur_max_val_at_zero_counterexample:
  "snd (driver_fseek (one_reader_state 100 0) 1 max_val ios_cur) = 0
   \<and> map_option rd_offset
       (resolve_reader (fst (driver_fseek (one_reader_state 100 0) 1 max_val ios_cur)) 1)
     = Some max_val"
  by (simp add: driver_fseek_def one_reader_state_def FindReader_def resolve_reader_def
      seek_computed_offset_def set_reader_offset_def make_simple_reader_def make_Reader_def
      ios_cur_def ios_beg_def wrap64_def max_val_def kTrue_def kFalse_def)

subsection \<open>Seeking from the end of an empty stream\<close>

text \<open>
  C7. For every open reader whose total logical size is 0: seeking to the end with
  delta 0 returns 0 and sets the cursor to 0; with delta \<open>-1\<close> it returns \<^verbatim>\<open>kBadSize\<close>
  with the message "Invalid seek offset -1" and the reader is unchanged; with the
  smallest 64-bit delta it returns \<^verbatim>\<open>kBadSize\<close> with "Signed overflow prevented" and the
  reader is unchanged.
\<close>

theorem seek_end_empty_stream:
  assumes "bIsConnected s \<noteq> kFalse" and "stream \<noteq> 0"
    and "resolve_reader s stream = Some r"
    and "rd_total_size r = 0"
  shows "snd (driver_fseek s stream 0 ios_end) = 0
         \<and> resolve_reader (fst (driver_fseek s stream 0 ios_end)) stream = Some (r\<lparr>rd_offset := 0\<rparr>)
         \<and> driver_fseek s stream (- 1) ios_end =
             (LogError (MsgInt ''Invalid seek offset '' (- 1)) s, kBadSize)
         \<and> resolve_reader (fst (driver_fseek s stream (- 1) ios_end)) stream = Some r
         \<and> driver_fseek s stream min_val ios_end =
             (LogError (Msg ''Signed overflow prevented'') s, kBadSize)
         \<and> resolve_reader (fst (driver_fseek s stream min_val ios_end)) stream = Some r"
proof -
  from assms(3) obtain i where i: "FindReader stream s = Some i"
    and r: "snd (active_reader_handles s ! i) = r"
    by (auto dest: resolve_reader_SomeD)
  have c0: "seek_computed_offset r 0 ios_end = Inr 0"
    using assms(4)
    by (simp add: seek_computed_offset_def ios_end_def ios_cur_def ios_beg_def min_val_def)
  have c1: "seek_computed_offset r (- 1) ios_end = Inr (- 1)"
    using assms(4)
    by (simp add: seek_computed_offset_def ios_end_def ios_cur_def ios_beg_def min_val_def)
  have c2: "seek_computed_offset r min_val ios_end = Inl (Msg ''Signed overflow prevented'')"
    using assms(4)
    by (simp add: seek_computed_offset_def ios_end_def ios_cur_def ios_beg_def)
  have r0: "driver_fseek s stream 0 ios_end = (set_reader_offset i 0 s, 0)"
    using assms(1,2) i r c0 by (simp add: driver_fseek_def)
  have r1: "driver_fseek s stream (- 1) ios_end =
              (LogError (MsgInt ''Invalid seek offset '' (- 1)) s, kBadSize)"
    using assms(1,2) i r c1 by (simp add: driver_fseek_def)
  have r2: "driver_fseek s stream min_val ios_end =
              (LogError (Msg ''Signed overflow prevented'') s, kBadSize)"
    using assms(1,2) i r c2 by (simp add: driver_fseek_def)
  have s0: "resolve_reader (set_reader_offset i 0 s) stream = Some (r\<lparr>rd_offset := 0\<rparr>)"
    using resolve_reader_set_offset [OF i, of 0] r by simp
  show ?thesis
    unfolding r0 r1 r2 using s0 assms(3) by simp
qed

theorem seek_end_empty_stream_witness:
  "snd (driver_fseek (one_reader_state 0 0) 1 0 ios_end) = 0
   \<and> map_option rd_offset
       (resolve_reader (fst (driver_fseek (one_reader_state 0 0) 1 0 ios_end)) 1) = Some 0
   \<and> driver_fseek (one_reader_state 0 0) 1 (- 1) ios_end =
       (LogError (MsgInt ''Invalid seek offset '' (- 1)) (one_reader_state 0 0), kBadSize)
   \<and> driver_fseek (one_reader_state 0 0) 1 min_val ios_end =
       (LogError (Msg ''Signed overflow prevented'') (one_reader_state 0 0), kBadSize)"
proof -
  let ?r = "(make_simple_reader ''bucket'' ''data.txt'' ''data.txt'' 0)\<lparr>rd_offset := 0\<rparr>"
  have a: "bIsConnected (one_reader_state 0 0) \<noteq> kFalse"
    by (simp add: one_reader_state_def kTrue_def kFalse_def)
  have b: "resolve_reader (one_reader_state 0 0) 1 = Some ?r"
    by (simp add: one_reader_state_def resolve_reader_def FindReader_def)
  have c: "rd_total_size ?r = 0"
    by (simp add: make_simple_reader_def make_Reader_def)
  note t = seek_end_empty_stream [OF a _ b c]
  from t have A: "snd (driver_fseek (one_reader_state 0 0) 1 0 ios_end) = 0"
    by blast
  from t have B: "resolve_reader (fst (driver_fseek (one_reader_state 0 0) 1 0 ios_end)) 1
      = Some (?r\<lparr>rd_offset := 0\<rparr>)"
    by blast
  from t have C: "driver_fseek (one_reader_state 0 0) 1 (- 1) ios_end =
       (LogError (MsgInt ''Invalid seek offset '' (- 1)) (one_reader_state 0 0), kBadSize)"
    by blast
  from t have D: "driver_fseek (one_reader_state 0 0) 1 min_val ios_end =
       (LogError (Msg ''Signed overflow prevented'') (one_reader_state 0 0), kBadSize)"
    by blast
  show ?thesis
    unfolding B using A C D by simp
qed

subsection \<open>Finding the header of the first part\<close>

lemma first_index_None_iff: "first_index P xs = None \<longleftrightarrow> (\<forall>x \<in> set xs. \<not> P x)"
  by (induction xs) auto

lemma first_index_append:
  "first_index P (xs @ ys) =
     (case first_index P xs of
        Some i \<Rightarrow> Some i
      | None \<Rightarrow> map_option (\<lambda>i. length xs + i) (first_index P ys))"
proof (induction xs)
  case Nil
  show ?case by (cases "first_index P ys") simp_all
next
  case (Cons x xs)
  then show ?case by (cases "first_index P ys") (auto split: option.splits)
qed

lemma first_index_of_take:
  assumes "first_index P (take n xs) = Some i"
  shows "first_index P xs = Some i"
proof -
  have "first_index P (take n xs @ drop n xs) = Some i"
    by (subst first_index_append) (simp add: assms)
  then show ?thesis by simp
qed

lemma first_line_no_newline: "newline \<notin> set bytes \<Longrightarrow> first_line bytes = None"
  by (auto simp: first_line_def first_index_None_iff split: option.splits)

lemma DownloadTo_ok:
  assumes "find_blob st c n = Some item"
    and "refuses st (ReqDownload c n a l) = None"
    and "0 \<le> a" and "0 \<le> l" and "a \<le> int (length (Content item))"
  shows "DownloadTo st c n a l =
           Inr (take (nat l) (drop (nat a) (Content item)), int (length (Content item)))"
  using assms by (simp add: DownloadTo_def BlobSize_def)

lemma FindHeader_loop_found:
  assumes "DownloadTo st c n (int (length header)) block_size = Inr (chunk, blob_size)"
    and "first_index (\<lambda>b. b = newline) chunk = Some pos"
  shows "FindHeader_loop st c n header = Inr (Some (header @ take (pos + 1) chunk))"
  using assms by (simp add: FindHeader_loop.simps [of st c n header])

lemma FindHeader_loop_exhausted:
  assumes "DownloadTo st c n (int (length header)) block_size = Inr (chunk, blob_size)"
    and "first_index (\<lambda>b. b = newline) chunk = None"
    and "int (length header + length chunk) = blob_size"
  shows "FindHeader_loop st c n header = Inr None"
  using assms by (simp add: FindHeader_loop.simps [of st c n header])

lemma FindHeader_loop_next:
  assumes "DownloadTo st c n (int (length header)) block_size = Inr (chunk, blob_size)"
    and "first_index (\<lambda>b. b = newline) chunk = None"
    and "int (length header + length chunk) \<noteq> blob_size"
  shows "FindHeader_loop st c n header = FindHeader_loop st c n (header @ chunk)"
  using assms by (simp add: FindHeader_loop.simps [of st c n header])

lemma FindHeader_loop_prefix:
  assumes blob: "find_blob st c n = Some item"
    and ok: "\<And>a l. refuses st (ReqDownload c n a l) = None"
    and h: "h \<le> length (Content item)"
    and clean: "newline \<notin> set (take h (Content item))"
  shows "FindHeader_loop st c n (take h (Content item)) = Inr (first_line (Content item))"
  using h clean
proof (induction "length (Content item) - h" arbitrary: h rule: less_induct)
  case less
  let ?data = "Content item"
  let ?B = "nat block_size"
  let ?chunk = "take ?B (drop h ?data)"
  have B: "0 < ?B" by (simp add: block_size_def)
  have lenh: "length (take h ?data) = h" using less.prems(1) by simp
  have dl: "DownloadTo st c n (int (length (take h ?data))) block_size =
      Inr (?chunk, int (length ?data))"
    using DownloadTo_ok [OF blob ok, of "int h" block_size] less.prems(1)
    by (simp add: lenh block_size_def)
  have none_h: "first_index (\<lambda>b. b = newline) (take h ?data) = None"
    using less.prems(2) by (auto simp: first_index_None_iff)
  have split: "?data = take h ?data @ drop h ?data" by simp
  have fi_data: "first_index (\<lambda>b. b = newline) ?data =
      map_option (\<lambda>i. h + i) (first_index (\<lambda>b. b = newline) (drop h ?data))"
    using first_index_append [of "\<lambda>b. b = newline" "take h ?data" "drop h ?data"] none_h lenh
    by simp
  show ?case
  proof (cases "first_index (\<lambda>b. b = newline) ?chunk")
    case (Some pos)
    then have pos: "pos < length ?chunk" by (rule first_index_less)
    then have posB: "pos < ?B" by simp
    have "first_index (\<lambda>b. b = newline) (drop h ?data) = Some pos"
      using Some by (rule first_index_of_take)
    with fi_data have fl: "first_line ?data = Some (take (h + pos + 1) ?data)"
      by (simp add: first_line_def)
    have t1: "take (h + (pos + 1)) ?data = take h ?data @ take (pos + 1) (drop h ?data)"
      by (rule take_add)
    have t2: "take (pos + 1) ?chunk = take (pos + 1) (drop h ?data)"
      using posB by (simp add: min_def)
    have "take h ?data @ take (pos + 1) ?chunk = take (h + pos + 1) ?data"
      unfolding t2 t1 [symmetric] by (simp add: add.assoc)
    with FindHeader_loop_found [OF dl Some] fl show ?thesis
      by simp
  next
    case None
    then have clean_chunk: "newline \<notin> set ?chunk"
      by (auto simp: first_index_None_iff)
    show ?thesis
    proof (cases "h + length ?chunk = length ?data")
      case True
      then have "?chunk = drop h ?data" by (simp add: min_def split: if_splits)
      with clean_chunk less.prems(2) have "newline \<notin> set ?data"
        by (metis Un_iff set_append split)
      then have "first_line ?data = None" by (rule first_line_no_newline)
      moreover have "int (length (take h ?data) + length ?chunk) = int (length ?data)"
        using True unfolding lenh by simp
      ultimately show ?thesis
        using FindHeader_loop_exhausted [OF dl None] by simp
    next
      case False
      then have more: "h + ?B < length ?data" "length ?chunk = ?B"
        using less.prems(1) by (auto simp: min_def split: if_splits)
      have app: "take h ?data @ ?chunk = take (h + ?B) ?data"
        by (rule take_add [symmetric])
      have "newline \<notin> set (take (h + ?B) ?data)"
        using clean_chunk less.prems(2) by (simp flip: app)
      moreover have "length ?data - (h + ?B) < length ?data - h"
        using more(1) B by simp
      ultimately have IH: "FindHeader_loop st c n (take (h + ?B) ?data) = Inr (first_line ?data)"
        using more(1) by (intro less.hyps) simp_all
      have "length (take h ?data) + length ?chunk \<noteq> length ?data"
        using False unfolding lenh .
      then have ne: "int (length (take h ?data) + length ?chunk) \<noteq> int (length ?data)"
        unfolding of_nat_eq_iff .
      show ?thesis
        using FindHeader_loop_next [OF dl None ne] IH unfolding app by simp
    qed
  qed
qed

lemma FindHeader_first_line:
  assumes "find_blob st c n = Some item"
    and "\<And>a l. refuses st (ReqDownload c n a l) = None"
  shows "FindHeader st c n = Inr (first_line (Content item))"
  using FindHeader_loop_prefix [OF assms, of 0] by (simp add: FindHeader_def)

subsection \<open>Comparing the headers of the later parts\<close>

lemma find_in_distinct:
  assumes "distinct (map f (filter Q xs))" and "x \<in> set xs" and "Q x"
  shows "List.find (\<lambda>y. f y = f x \<and> Q y) xs = Some x"
  using assms
proof (induction xs)
  case Nil
  then show ?case by simp
next
  case (Cons y ys)
  show ?case
  proof (cases "y = x")
    case True
    with Cons.prems show ?thesis by simp
  next
    case False
    with Cons.prems have mem: "x \<in> set ys" by simp
    show ?thesis
    proof (cases "Q y")
      case True
      with Cons.prems mem have "f y \<noteq> f x" by force
      moreover from True Cons.prems have "distinct (map f (filter Q ys))" by simp
      ultimately show ?thesis using Cons.IH mem Cons.prems(3) by simp
    next
      case False
      with Cons.prems have "distinct (map f (filter Q ys))" by simp
      with False show ?thesis using Cons.IH mem Cons.prems(3) by simp
    qed
  qed
qed

lemma find_blob_live:
  assumes "live_names_distinct st c" and "item \<in> set (containers st c)" and "\<not> IsDeleted item"
  shows "find_blob st c (Name item) = Some item"
  using find_in_distinct [of Name "\<lambda>item. \<not> IsDeleted item" "containers st c" item] assms
  by (simp add: find_blob_def live_names_distinct_def)

lemma matching_blobs_live:
  assumes "item \<in> set (matching_blobs glob st c pattern pos)"
  shows "item \<in> set (containers st c) \<and> \<not> IsDeleted item"
  using assms by (auto simp: matching_blobs_def)

lemma IsSameHeader_ok:
  assumes "find_blob st c (Name item) = Some item"
    and "\<And>a l. refuses st (ReqDownload c (Name item) a l) = None"
  shows "IsSameHeader st c item header buf =
           Inr (overwrite_start (Content item) buf = header, overwrite_start (Content item) buf)"
  using DownloadTo_ok [OF assms, of 0 "int (length buf)"]
  by (simp add: IsSameHeader_def ReadPart_def overwrite_start_def)

lemma length_overwrite_start [simp]: "length (overwrite_start bytes buf) = length buf"
  by (simp add: overwrite_start_def)

lemma overwrite_start_same:
  assumes "take (length header) bytes = header" and "length buf = length header"
  shows "overwrite_start bytes buf = header"
proof -
  from assms(1) have "length (take (length header) bytes) = length header" by simp
  then have "length header \<le> length bytes" by simp
  with assms show ?thesis by (simp add: overwrite_start_def)
qed

lemma first_index_holds: "first_index P xs = Some i \<Longrightarrow> P (xs ! i)"
  by (induction xs arbitrary: i) (auto split: if_splits)

lemma first_line_last:
  assumes "first_line bytes = Some header"
  shows "header \<noteq> [] \<and> last header = newline"
proof -
  from assms obtain k where k: "first_index (\<lambda>b. b = newline) bytes = Some k"
    and h: "header = take (k + 1) bytes"
    by (auto simp: first_line_def split: option.splits)
  from k have lt: "k < length bytes" by (rule first_index_less)
  from k have nl: "bytes ! k = newline" by (rule first_index_holds)
  from lt have len: "length header = k + 1" by (simp add: h)
  then have ne: "header \<noteq> []" by auto
  then have "last header = header ! k" using len by (simp add: last_conv_nth)
  also have "\<dots> = bytes ! k" by (simp add: h)
  finally show ?thesis using ne nl by simp
qed

lemma overwrite_start_zeros:
  assumes "header \<noteq> []" and "last header \<noteq> CHR 0x00"
  shows "overwrite_start bytes (replicate (length header) (CHR 0x00)) = header
           \<longleftrightarrow> take (length header) bytes = header"
proof
  assume "take (length header) bytes = header"
  then show "overwrite_start bytes (replicate (length header) (CHR 0x00)) = header"
    by (intro overwrite_start_same) simp_all
next
  assume eq: "overwrite_start bytes (replicate (length header) (CHR 0x00)) = header"
  show "take (length header) bytes = header"
  proof (cases "length header \<le> length bytes")
    case True
    with eq show ?thesis by (simp add: overwrite_start_def)
  next
    case False
    then have short: "length bytes < length header" by simp
    then have "overwrite_start bytes (replicate (length header) (CHR 0x00)) =
        bytes @ replicate (length header - length bytes) (CHR 0x00)"
      by (simp add: overwrite_start_def)
    moreover from short have "replicate (length header - length bytes) (CHR 0x00) \<noteq> []"
      by simp
    ultimately have "last (overwrite_start bytes (replicate (length header) (CHR 0x00))) =
        CHR 0x00"
      by simp
    with eq assms(2) show ?thesis by simp
  qed
qed

lemma overwrite_start_header:
  "overwrite_start bytes header = header \<longleftrightarrow> agrees_with header bytes"
proof -
  let ?m = "min (length bytes) (length header)"
  have split: "header = take ?m header @ drop ?m header" by simp
  have ov: "overwrite_start bytes header = take (length header) bytes @ drop ?m header"
    by (simp add: overwrite_start_def min.commute)
  have "overwrite_start bytes header = header
      \<longleftrightarrow> take (length header) bytes @ drop ?m header = take ?m header @ drop ?m header"
    using ov by simp
  also have "\<dots> \<longleftrightarrow> take (length header) bytes = take ?m header"
  proof -
    have "length (take (length header) bytes) = length (take ?m header)"
      by (simp add: min_def)
    then show ?thesis by (simp only: append_eq_append_conv simp_thms)
  qed
  also have "take ?m header = take (length bytes) header"
    by (simp add: min_def)
  finally show ?thesis by (auto simp: agrees_with_def)
qed

lemma GetFileSize_loop_not_same:
  "GetFileSize_loop st c header items (tot, False, buf, probed) =
     Inr (tot + sum_list (map BlobSize items), False, buf, probed)"
  by (induction items arbitrary: tot) (simp_all add: add.assoc)

lemma GetFileSize_loop_from_header:
  assumes "\<forall>item \<in> set items.
             find_blob st c (Name item) = Some item
             \<and> (\<forall>a l. refuses st (ReqDownload c (Name item) a l) = None)"
  shows "\<exists>buf'. GetFileSize_loop st c header items (tot, True, header, probed) =
           Inr (tot + sum_list (map BlobSize items),
                list_all (\<lambda>item. agrees_with header (Content item)) items, buf',
                probed @ map Name
                  (takeWhile (\<lambda>item. agrees_with header (Content item)) items
                   @ take 1 (dropWhile (\<lambda>item. agrees_with header (Content item)) items)))"
  using assms
proof (induction items arbitrary: tot probed)
  case Nil
  show ?case by simp
next
  case (Cons item rest)
  have rest_ok: "\<forall>x \<in> set rest.
      find_blob st c (Name x) = Some x \<and> (\<forall>a l. refuses st (ReqDownload c (Name x) a l) = None)"
    using Cons.prems by simp
  have item_ok: "find_blob st c (Name item) = Some item"
    "\<And>a l. refuses st (ReqDownload c (Name item) a l) = None"
    using Cons.prems by simp_all
  let ?buf1 = "overwrite_start (Content item) header"
  have step: "GetFileSize_loop st c header (item # rest) (tot, True, header, probed) =
      GetFileSize_loop st c header rest
        (tot + BlobSize item, agrees_with header (Content item), ?buf1, probed @ [Name item])"
    using IsSameHeader_ok [OF item_ok, of header header]
    by (simp add: overwrite_start_header)
  show ?case
  proof (cases "agrees_with header (Content item)")
    case True
    then have b: "?buf1 = header" by (simp add: overwrite_start_header)
    from Cons.IH [OF rest_ok, of "tot + BlobSize item" "probed @ [Name item]"]
    obtain buf' where "GetFileSize_loop st c header rest
        (tot + BlobSize item, True, header, probed @ [Name item]) =
        Inr (tot + BlobSize item + sum_list (map BlobSize rest),
             list_all (\<lambda>item. agrees_with header (Content item)) rest, buf',
             (probed @ [Name item]) @ map Name
               (takeWhile (\<lambda>item. agrees_with header (Content item)) rest
                @ take 1 (dropWhile (\<lambda>item. agrees_with header (Content item)) rest)))"
      by blast
    with step True b show ?thesis
      by (intro exI [of _ buf']) (simp add: add.assoc)
  next
    case False
    with step show ?thesis
      by (intro exI [of _ ?buf1]) (simp add: GetFileSize_loop_not_same add.assoc)
  qed
qed

lemma GetFileSize_loop_exact:
  assumes "\<forall>item \<in> set later.
             find_blob st c (Name item) = Some item
             \<and> (\<forall>a l. refuses st (ReqDownload c (Name item) a l) = None)"
    and "header \<noteq> []" and "last header \<noteq> CHR 0x00"
  shows "\<exists>buf'. GetFileSize_loop st c header later
                  (tot, True, replicate (length header) (CHR 0x00), []) =
           Inr (tot + sum_list (map BlobSize later), judged_same header later, buf',
                map Name (compared_parts header later))"
proof (cases later)
  case Nil
  then show ?thesis by (simp add: judged_same_def compared_parts_def)
next
  case (Cons second rest)
  let ?buf0 = "replicate (length header) (CHR 0x00)"
  let ?buf1 = "overwrite_start (Content second) ?buf0"
  let ?b = "take (length header) (Content second) = header"
  have rest_ok: "\<forall>x \<in> set rest.
      find_blob st c (Name x) = Some x \<and> (\<forall>a l. refuses st (ReqDownload c (Name x) a l) = None)"
    using assms(1) Cons by simp
  have item_ok: "find_blob st c (Name second) = Some second"
    "\<And>a l. refuses st (ReqDownload c (Name second) a l) = None"
    using assms(1) Cons by simp_all
  have step: "GetFileSize_loop st c header (second # rest) (tot, True, ?buf0, []) =
      GetFileSize_loop st c header rest (tot + BlobSize second, ?b, ?buf1, [Name second])"
    using IsSameHeader_ok [OF item_ok, of header ?buf0]
    by (simp add: overwrite_start_zeros [OF assms(2,3)])
  show ?thesis
  proof (cases ?b)
    case True
    then have b: "?buf1 = header" by (simp add: overwrite_start_zeros [OF assms(2,3)])
    from GetFileSize_loop_from_header [OF rest_ok, of header "tot + BlobSize second"
        "[Name second]"]
    obtain buf' where "GetFileSize_loop st c header rest
        (tot + BlobSize second, True, header, [Name second]) =
        Inr (tot + BlobSize second + sum_list (map BlobSize rest),
             list_all (\<lambda>item. agrees_with header (Content item)) rest, buf',
             [Name second] @ map Name
               (takeWhile (\<lambda>item. agrees_with header (Content item)) rest
                @ take 1 (dropWhile (\<lambda>item. agrees_with header (Content item)) rest)))"
      by blast
    with step True b Cons show ?thesis
      by (intro exI [of _ buf']) (simp add: judged_same_def compared_parts_def add.assoc)
  next
    case False
    with step Cons show ?thesis
      by (intro exI [of _ ?buf1])
        (simp add: GetFileSize_loop_not_same judged_same_def compared_parts_def add.assoc)
  qed
qed

lemma newline_not_zero: "newline \<noteq> CHR 0x00"
  by (simp add: newline_def)

lemma judged_same_shared:
  assumes "\<forall>item \<in> set later. take (length header) (Content item) = header"
  shows "judged_same header later"
proof -
  have "agrees_with header bytes" if "take (length header) bytes = header" for bytes
  proof -
    from that have "length (take (length header) bytes) = length header" by simp
    then have "length header \<le> length bytes" by simp
    with that show ?thesis by (simp add: agrees_with_def)
  qed
  with assms show ?thesis
    by (cases later) (simp_all add: judged_same_def list_all_iff)
qed

lemma MakeReaderPtr_loop_agrees:
  assumes "cs \<noteq> []" and "last cs = tot"
  shows "case GetFileSize_loop st c header items (tot, same, buf, probed) of
           Inl e \<Rightarrow> MakeReaderPtr_loop st c header items (fns, cs, same, buf) = Inl e
         | Inr (tot', same', buf', probed') \<Rightarrow>
             (\<exists>cs'. MakeReaderPtr_loop st c header items (fns, cs, same, buf) =
                      Inr (fns @ map Name items, cs', same', buf')
                \<and> length cs' = length cs + length items
                \<and> last cs' = tot'
                \<and> take (length cs) cs' = cs
                \<and> (\<forall>i < length items.
                      cs' ! (length cs + i) =
                        last cs + sum_list (map BlobSize (take (i + 1) items))))"
  using assms
proof (induction items arbitrary: tot same buf probed fns cs)
  case Nil
  then show ?case by simp
next
  case (Cons item rest)
  let ?cs1 = "cs @ [last cs + BlobSize item]"
  have cs1: "?cs1 \<noteq> []" "last ?cs1 = tot + BlobSize item"
    using Cons.prems by simp_all
  have extend: "(\<exists>cs'. MakeReaderPtr_loop st c header rest (fns @ [Name item], ?cs1, b, bf) =
                      Inr ((fns @ [Name item]) @ map Name rest, cs', same', buf')
                \<and> length cs' = length ?cs1 + length rest
                \<and> last cs' = tot'
                \<and> take (length ?cs1) cs' = ?cs1
                \<and> (\<forall>i < length rest.
                      cs' ! (length ?cs1 + i) =
                        last ?cs1 + sum_list (map BlobSize (take (i + 1) rest))))
     \<Longrightarrow> (\<exists>cs'. MakeReaderPtr_loop st c header rest (fns @ [Name item], ?cs1, b, bf) =
                      Inr (fns @ map Name (item # rest), cs', same', buf')
                \<and> length cs' = length cs + length (item # rest)
                \<and> last cs' = tot'
                \<and> take (length cs) cs' = cs
                \<and> (\<forall>i < length (item # rest).
                      cs' ! (length cs + i) =
                        last cs + sum_list (map BlobSize (take (i + 1) (item # rest)))))"
    for b bf same' buf' tot'
  proof -
    assume "\<exists>cs'. MakeReaderPtr_loop st c header rest (fns @ [Name item], ?cs1, b, bf) =
                      Inr ((fns @ [Name item]) @ map Name rest, cs', same', buf')
                \<and> length cs' = length ?cs1 + length rest
                \<and> last cs' = tot'
                \<and> take (length ?cs1) cs' = ?cs1
                \<and> (\<forall>i < length rest.
                      cs' ! (length ?cs1 + i) =
                        last ?cs1 + sum_list (map BlobSize (take (i + 1) rest)))"
    then obtain cs' where
      r: "MakeReaderPtr_loop st c header rest (fns @ [Name item], ?cs1, b, bf) =
            Inr ((fns @ [Name item]) @ map Name rest, cs', same', buf')"
      and l: "length cs' = length ?cs1 + length rest"
      and la: "last cs' = tot'"
      and tk: "take (length ?cs1) cs' = ?cs1"
      and nth: "\<forall>i < length rest.
                  cs' ! (length ?cs1 + i) =
                    last ?cs1 + sum_list (map BlobSize (take (i + 1) rest))"
      by blast
    have tk0: "take (length cs) cs' = cs"
    proof -
      have "take (length cs) (take (length ?cs1) cs') = take (length cs) ?cs1"
        by (simp only: tk)
      then show ?thesis by (simp add: min_def)
    qed
    have at0: "cs' ! length cs = last cs + BlobSize item"
    proof -
      have "cs' ! length cs = take (length ?cs1) cs' ! length cs"
        by simp
      also have "\<dots> = ?cs1 ! length cs" by (simp only: tk)
      finally show ?thesis by simp
    qed
    have nth': "\<forall>i < length (item # rest).
        cs' ! (length cs + i) = last cs + sum_list (map BlobSize (take (i + 1) (item # rest)))"
    proof (intro allI impI)
      fix i assume i: "i < length (item # rest)"
      show "cs' ! (length cs + i) =
          last cs + sum_list (map BlobSize (take (i + 1) (item # rest)))"
      proof (cases i)
        case 0
        with at0 show ?thesis by simp
      next
        case (Suc i')
        with i nth have "cs' ! (length ?cs1 + i') =
            last ?cs1 + sum_list (map BlobSize (take (i' + 1) rest))"
          by simp
        with Suc show ?thesis by (simp add: add.assoc)
      qed
    qed
    from r l la tk0 nth' show ?thesis by auto
  qed
  show ?case
  proof (cases same)
    case True
    show ?thesis
    proof (cases "IsSameHeader st c item header buf")
      case (Inl e)
      with True show ?thesis by simp
    next
      case (Inr p)
      obtain b bf where p: "p = (b, bf)" by (cases p)
      from Cons.IH [OF cs1, where same = b and buf = bf and probed = "probed @ [Name item]"
          and fns = "fns @ [Name item]"]
      show ?thesis
        using True Inr p extend [of b bf]
        by (auto split: sum.splits)
    qed
  next
    case False
    from Cons.IH [OF cs1, where same = same and buf = buf and probed = probed
        and fns = "fns @ [Name item]"]
    show ?thesis
      using False extend [of same buf]
      by (auto split: sum.splits)
  qed
qed

lemma FindHeader_loop_never_Some:
  assumes "find_blob st c n = Some item" and "newline \<notin> set (Content item)"
  shows "FindHeader_loop st c n header \<noteq> Inr (Some x)"
  using assms
proof (induction st c n header rule: FindHeader_loop.induct)
  case (1 st c n header)
  show ?case
  proof (cases "DownloadTo st c n (int (length header)) block_size")
    case (Inl e)
    then show ?thesis by (simp add: FindHeader_loop.simps [of st c n header])
  next
    case (Inr p)
    obtain chunk blob_size where p: "p = (chunk, blob_size)" by (cases p)
    from Inr p "1.prems"(1) have "set chunk \<subseteq> set (Content item)"
      by (auto simp: DownloadTo_def split: option.splits if_splits
          dest!: in_set_takeD in_set_dropD)
    with "1.prems"(2) have none: "first_index (\<lambda>b. b = newline) chunk = None"
      by (auto simp: first_index_None_iff)
    show ?thesis
    proof (cases "int (length header + length chunk) = blob_size")
      case True
      from FindHeader_loop_exhausted [OF Inr [unfolded p] none True] show ?thesis by simp
    next
      case False
      from "1.IH" [OF Inr p [symmetric] none False "1.prems"]
        FindHeader_loop_next [OF Inr [unfolded p] none False]
      show ?thesis by simp
    qed
  qed
qed

subsection \<open>The size of a multi-part file\<close>

lemma matching_blobs_found:
  assumes "live_names_distinct st c" and "item \<in> set (matching_blobs glob st c pattern pos)"
  shows "find_blob st c (Name item) = Some item"
  using assms matching_blobs_live [OF assms(2)] by (simp add: find_blob_live)

lemma hd_tl_sum:
  "xs \<noteq> [] \<Longrightarrow> BlobSize (xs ! 0) + sum_list (map BlobSize (tl xs)) = sum_list (map BlobSize xs)"
  by (cases xs) simp_all

lemma subtract_headers_last:
  assumes "2 \<le> length cs"
  shows "last (subtract_headers L cs) = last cs - int ((length cs - 1) * L)"
proof -
  from assms have ne: "[1..<length cs] \<noteq> []" by auto
  have "last (subtract_headers L cs) =
      last (map (\<lambda>i. cs ! i - int (i * L)) [1..<length cs])"
    using ne by (simp add: subtract_headers_def)
  also have "\<dots> = cs ! (length cs - 1) - int ((length cs - 1) * L)"
    using ne assms by (simp add: last_map)
  also have "cs ! (length cs - 1) = last cs"
    using assms by (intro last_conv_nth [symmetric]) auto
  finally show ?thesis .
qed

text \<open>
  The size of a multi-part file as the code computes it. Let a pattern match \<open>n \<ge> 2\<close>
  parts \<open>ms\<close> of a container that holds one live blob per name, let no request fail, and
  let \<open>header\<close> be the first line of the first part, newline included, of length \<open>L\<close>. The
  size query returns the sum of the raw sizes minus \<open>(n - 1) * L\<close> if the second part
  begins with \<open>header\<close> and every further part agrees with \<open>header\<close> wherever both have a
  byte, and the sum of the raw sizes otherwise; it reads the beginning of the later parts
  up to the first one that fails this test and of no part after it. The reader that
  \<^verbatim>\<open>MakeReaderPtr\<close> builds has the same total size.
\<close>

lemma total_size_as_computed:
  assumes "FindPatternSpecialChar pattern = Some pos"
    and "ms = matching_blobs glob st c pattern pos" and "2 \<le> length ms"
    and "live_names_distinct st c"
    and "\<And>req. refuses st req = None"
    and "first_line (Content (ms ! 0)) = Some header"
  shows "GetFileSize_probing glob st c pattern =
           (Inr (if judged_same header (tl ms)
                 then sum_list (map BlobSize ms) - int ((length ms - 1) * length header)
                 else sum_list (map BlobSize ms)),
            map Name (compared_parts header (tl ms)))
         \<and> (\<exists>reader. MakeReaderPtr glob st c pattern = Inr reader
               \<and> rd_total_size reader =
                   (if judged_same header (tl ms)
                    then sum_list (map BlobSize ms) - int ((length ms - 1) * length header)
                    else sum_list (map BlobSize ms)))"
proof -
  let ?L = "length header"
  let ?buf0 = "replicate ?L (CHR 0x00)"
  let ?same = "judged_same header (tl ms)"
  from assms(3) have ne: "ms \<noteq> []" and n1: "length ms \<noteq> 1" by auto
  have found: "\<And>item. item \<in> set ms \<Longrightarrow> find_blob st c (Name item) = Some item"
    using matching_blobs_found [OF assms(4)] assms(2) by simp
  have first: "find_blob st c (Name (ms ! 0)) = Some (ms ! 0)"
    using found [of "ms ! 0"] ne by simp
  have fh: "FindHeader st c (Name (ms ! 0)) = Inr (Some header)"
    using FindHeader_first_line [OF first] assms(5,6) by simp
  have fl: "FilterList glob st c pattern pos = Inr ms"
    using ne assms(2,5) by (simp add: FilterList_cases)
  have parts: "\<forall>item \<in> set (tl ms).
      find_blob st c (Name item) = Some item
      \<and> (\<forall>a l. refuses st (ReqDownload c (Name item) a l) = None)"
    using found assms(5) ne by (auto dest: list.set_sel(2))
  from first_line_last [OF assms(6)] newline_not_zero
  have hne: "header \<noteq> []" and hl: "last header \<noteq> CHR 0x00" by simp_all
  from GetFileSize_loop_exact [OF parts hne hl, of "BlobSize (ms ! 0)"]
  obtain buf' where
    loop: "GetFileSize_loop st c header (tl ms) (BlobSize (ms ! 0), True, ?buf0, []) =
             Inr (BlobSize (ms ! 0) + sum_list (map BlobSize (tl ms)), ?same, buf',
                  map Name (compared_parts header (tl ms)))"
    by blast
  have sum: "BlobSize (ms ! 0) + sum_list (map BlobSize (tl ms)) = sum_list (map BlobSize ms)"
    using ne by (rule hd_tl_sum)
  have probing: "GetFileSize_probing glob st c pattern =
      (Inr (if ?same then sum_list (map BlobSize ms) - int ((length ms - 1) * ?L)
            else sum_list (map BlobSize ms)), map Name (compared_parts header (tl ms)))"
    using assms(1) fl n1 fh loop sum by (simp add: GetFileSize_probing_def)
  have cs0: "[BlobSize (ms ! 0)] \<noteq> []" "last [BlobSize (ms ! 0)] = BlobSize (ms ! 0)"
    by simp_all
  from MakeReaderPtr_loop_agrees [OF cs0, where st = st and c = c and header = header
      and items = "tl ms" and same = True and buf = ?buf0 and probed = "[]"
      and fns = "[Name (ms ! 0)]"] loop
  obtain cs' where
    mk: "MakeReaderPtr_loop st c header (tl ms)
           ([Name (ms ! 0)], [BlobSize (ms ! 0)], True, ?buf0) =
         Inr ([Name (ms ! 0)] @ map Name (tl ms), cs', ?same, buf')"
    and lcs: "length cs' = length [BlobSize (ms ! 0)] + length (tl ms)"
    and last: "last cs' = BlobSize (ms ! 0) + sum_list (map BlobSize (tl ms))"
    by auto
  have lcs': "length cs' = length ms" using lcs ne by simp
  have csne: "cs' \<noteq> []" using lcs' ne by auto
  let ?reader = "make_Reader c pattern 0 (int ?L) ([Name (ms ! 0)] @ map Name (tl ms))
      (if ?same then subtract_headers ?L cs' else cs')"
  have reader: "MakeReaderPtr glob st c pattern = Inr ?reader"
    using assms(1) fl n1 fh mk by (simp add: MakeReaderPtr_def)
  have sne: "subtract_headers ?L cs' \<noteq> []"
    using csne by (cases cs') (simp_all add: subtract_headers_def)
  have total: "rd_total_size ?reader =
      (if ?same then sum_list (map BlobSize ms) - int ((length ms - 1) * ?L)
       else sum_list (map BlobSize ms))"
    using csne sne last sum subtract_headers_last [of cs' ?L] lcs' assms(3)
    by (simp add: make_Reader_def)
  from reader total have "\<exists>reader. MakeReaderPtr glob st c pattern = Inr reader
      \<and> rd_total_size reader =
          (if ?same then sum_list (map BlobSize ms) - int ((length ms - 1) * ?L)
           else sum_list (map BlobSize ms))"
    by (intro exI [of _ ?reader]) simp
  with probing show ?thesis by simp
qed

lemma store_of_never_refuses: "refuses (store_of blobs) req = None"
  by (simp add: store_of_def no_refusal_def)

lemma two_parts_store_never_refuses: "refuses two_parts_store req = None"
  by (simp add: two_parts_store_def no_refusal_def)

lemma first_line_part0: "first_line part0 = Some header10"
  by (simp add: first_line_def part0_def header10_def newline_def)

lemma two_parts_distinct: "live_names_distinct two_parts_store ''bucket''"
  by (simp add: live_names_distinct_def two_parts_store_def two_parts_def)

lemma matching_mixed:
  "matching_blobs prefix_glob (store_of mixed_parts) ''bucket'' ''data-*'' 5 = mixed_parts"
  by (simp add: matching_blobs_def prefix_glob_def special_data_star store_of_def mixed_parts_def)

lemma matching_headerless:
  "matching_blobs prefix_glob (store_of headerless_parts) ''bucket'' ''data-*'' 5 = headerless_parts"
  by (simp add: matching_blobs_def prefix_glob_def special_data_star store_of_def
      headerless_parts_def)

lemma total_size_of_example_parts:
  "GetFileSize_probing prefix_glob two_parts_store ''bucket'' ''data-*'' =
     (Inr 190, [''data-1.txt''])
   \<and> GetFileSize_probing prefix_glob (store_of mixed_parts) ''bucket'' ''data-*'' =
       (Inr 12, [''data-1.txt''])"
proof -
  have n2: "2 \<le> length two_parts" by (simp add: two_parts_def)
  have f2: "first_line (Content (two_parts ! 0)) = Some header10"
    by (simp add: two_parts_def first_line_part0)
  have j2: "judged_same header10 (tl two_parts)"
    "map Name (compared_parts header10 (tl two_parts)) = [''data-1.txt'']"
    by (simp_all add: judged_same_def compared_parts_def two_parts_def part1_def header10_def)
  have v2: "sum_list (map BlobSize two_parts) - int ((length two_parts - 1) * length header10)
      = 190"
    by (simp add: two_parts_def BlobSize_def len_part0 header10_def)
  from total_size_as_computed
    [OF special_data_star matching_data_star [symmetric] n2 two_parts_distinct
        two_parts_store_never_refuses f2]
  have A: "GetFileSize_probing prefix_glob two_parts_store ''bucket'' ''data-*'' =
      (Inr 190, [''data-1.txt''])"
    unfolding v2 by (simp add: j2)
  have n3: "2 \<le> length mixed_parts" by (simp add: mixed_parts_def)
  have d3: "live_names_distinct (store_of mixed_parts) ''bucket''"
    by (simp add: live_names_distinct_def store_of_def mixed_parts_def)
  have f3: "first_line (Content (mixed_parts ! 0)) = Some (''h'' @ [newline])"
    by (simp add: mixed_parts_def first_line_def newline_def)
  have j3: "\<not> judged_same (''h'' @ [newline]) (tl mixed_parts)"
    "map Name (compared_parts (''h'' @ [newline]) (tl mixed_parts)) = [''data-1.txt'']"
    by (simp_all add: judged_same_def compared_parts_def mixed_parts_def)
  have v3: "sum_list (map BlobSize mixed_parts) = 12"
    by (simp add: mixed_parts_def BlobSize_def)
  from total_size_as_computed
    [OF special_data_star matching_mixed [symmetric] n3 d3 store_of_never_refuses f3] j3 v3
  have B: "GetFileSize_probing prefix_glob (store_of mixed_parts) ''bucket'' ''data-*'' =
      (Inr 12, [''data-1.txt''])"
    by simp
  from A B show ?thesis by simp
qed

lemma matching_short:
  "matching_blobs prefix_glob (store_of short_parts) ''bucket'' ''data-*'' 5 = short_parts"
  by (simp add: matching_blobs_def prefix_glob_def special_data_star store_of_def short_parts_def)

lemma short_parts_facts:
  "2 \<le> length short_parts"
  "live_names_distinct (store_of short_parts) ''bucket''"
  "first_line (Content (short_parts ! 0)) = Some (''h'' @ [newline])"
  by (simp_all add: short_parts_def live_names_distinct_def store_of_def first_line_def
      newline_def)

lemma short_parts_reader:
  "MakeReaderPtr prefix_glob (store_of short_parts) ''bucket'' ''data-*'' =
     Inr (make_Reader ''bucket'' ''data-*'' 0 2
            [''data-0.txt'', ''data-1.txt'', ''data-2.txt''] [4, 6, 5])"
proof -
  let ?st = "store_of short_parts"
  let ?h = "''h'' @ [newline]"
  have fb: "find_blob ?st ''bucket'' (Name (short_parts ! i)) = Some (short_parts ! i)"
    if "i < 3" for i
  proof -
    from that have "i = 0 \<or> i = 1 \<or> i = 2" by auto
    then show ?thesis
      by (auto simp: find_blob_def store_of_def short_parts_def)
  qed
  have fh: "FindHeader ?st ''bucket'' (Name (short_parts ! 0)) = Inr (Some ?h)"
    using FindHeader_first_line [OF fb [of 0]] store_of_never_refuses short_parts_facts(3)
    by simp
  have fl: "FilterList prefix_glob ?st ''bucket'' ''data-*'' 5 = Inr short_parts"
    by (simp add: FilterList_cases store_of_never_refuses matching_short)
      (simp add: short_parts_def)
  have s1: "IsSameHeader ?st ''bucket'' (short_parts ! 1) ?h (replicate (length ?h) (CHR 0x00)) =
      Inr (True, ?h)"
    using IsSameHeader_ok [OF fb [of 1], of ?h "replicate (length ?h) (CHR 0x00)"]
      store_of_never_refuses
    by (simp add: overwrite_start_def short_parts_def)
  have s2: "IsSameHeader ?st ''bucket'' (short_parts ! 2) ?h ?h = Inr (True, ?h)"
    using IsSameHeader_ok [OF fb [of 2], of ?h ?h] store_of_never_refuses
    by (simp add: overwrite_start_def short_parts_def)
  have tl: "tl short_parts = [short_parts ! 1, short_parts ! 2]"
    by (simp add: short_parts_def)
  have sz: "BlobSize (short_parts ! 0) = 4" "BlobSize (short_parts ! Suc 0) = 4"
    "BlobSize (short_parts ! 2) = 1"
    by (simp_all add: short_parts_def BlobSize_def)
  have nm: "Name (short_parts ! 0) = ''data-0.txt''"
    "Name (short_parts ! Suc 0) = ''data-1.txt''" "Name (short_parts ! 2) = ''data-2.txt''"
    by (simp_all add: short_parts_def)
  have loop: "MakeReaderPtr_loop ?st ''bucket'' ?h (tl short_parts)
      ([Name (short_parts ! 0)], [BlobSize (short_parts ! 0)], True,
       replicate (length ?h) (CHR 0x00)) =
      Inr ([''data-0.txt'', ''data-1.txt'', ''data-2.txt''], [4, 8, 9], True, ?h)"
    unfolding tl using s1 s2 by (simp add: sz nm)
  have n: "length short_parts = 3" by (simp add: short_parts_def)
  have sub: "subtract_headers (length ?h) [4, 8, 9] = [4, 6, 5]"
    by (simp add: subtract_headers_def upt_rec)
  from fh loop sub show ?thesis
    by (simp add: MakeReaderPtr_def special_data_star fl n)
qed

text \<open>
  C3 does not hold of the code. The container holds three parts matched by \<^verbatim>\<open>data-*\<close>:
  \<^verbatim>\<open>h\nAB\<close>, \<^verbatim>\<open>h\nCD\<close> and the single byte \<^verbatim>\<open>h\<close>. The first line of the first part is
  \<^verbatim>\<open>h\n\<close>, of length 2, and the third part, which has no second byte, does not begin with
  it: the total logical size should be the sum of the raw sizes, 9. The size query reads
  the beginning of the second and of the third part and returns 5, which is 9 minus twice
  the header's length, and \<^verbatim>\<open>MakeReaderPtr\<close> builds a reader of total size 5 whose
  cumulative sizes are 4, 6 and 5.
\<close>

theorem short_later_part_is_elided:
  "first_line (Content (short_parts ! 0)) = Some (''h'' @ [newline])
   \<and> Content (short_parts ! 2) = ''h''
   \<and> sum_list (map BlobSize short_parts) = 9
   \<and> GetFileSize_probing prefix_glob (store_of short_parts) ''bucket'' ''data-*'' =
       (Inr 5, [''data-1.txt'', ''data-2.txt''])
   \<and> GetFileSize prefix_glob (store_of short_parts) ''bucket'' ''data-*'' = Inr 5
   \<and> MakeReaderPtr prefix_glob (store_of short_parts) ''bucket'' ''data-*'' =
       Inr (make_Reader ''bucket'' ''data-*'' 0 2
              [''data-0.txt'', ''data-1.txt'', ''data-2.txt''] [4, 6, 5])
   \<and> rd_total_size (make_Reader ''bucket'' ''data-*'' 0 2
              [''data-0.txt'', ''data-1.txt'', ''data-2.txt''] [4, 6, 5]) = 5"
proof -
  have js: "judged_same (''h'' @ [newline]) (tl short_parts)"
    by (simp add: judged_same_def short_parts_def agrees_with_def)
  have cp: "map Name (compared_parts (''h'' @ [newline]) (tl short_parts)) =
      [''data-1.txt'', ''data-2.txt'']"
    by (simp add: compared_parts_def short_parts_def agrees_with_def)
  have v: "sum_list (map BlobSize short_parts) = 9" "length short_parts = 3"
    by (simp_all add: short_parts_def BlobSize_def)
  from total_size_as_computed
    [OF special_data_star matching_short [symmetric] short_parts_facts(1,2)
        store_of_never_refuses short_parts_facts(3)] js cp v
  have p: "GetFileSize_probing prefix_glob (store_of short_parts) ''bucket'' ''data-*'' =
      (Inr 5, [''data-1.txt'', ''data-2.txt''])"
    by simp
  then have g: "GetFileSize prefix_glob (store_of short_parts) ''bucket'' ''data-*'' = Inr 5"
    by (simp add: GetFileSize_def)
  have c: "Content (short_parts ! 2) = ''h''" by (simp add: short_parts_def)
  have t: "rd_total_size (make_Reader ''bucket'' ''data-*'' 0 2
              [''data-0.txt'', ''data-1.txt'', ''data-2.txt''] [4, 6, 5]) = 5"
    by (simp add: make_Reader_def)
  from short_parts_facts(3) c v(1) p g short_parts_reader t show ?thesis by simp
qed

text \<open>
  C1 (as amended). For every pattern that matches at least two parts of a container
  with one live blob per name, if the first part holds no newline byte, then the size
  query and the construction of the reader both fail; when no request fails, the
  failure is the one with the reason "Error while reading header of first file.", and
  no reader is built.
\<close>

theorem headerless_first_part_fails:
  assumes "FindPatternSpecialChar pattern = Some pos"
    and "ms = matching_blobs glob st c pattern pos" and "2 \<le> length ms"
    and "live_names_distinct st c"
    and "newline \<notin> set (Content (ms ! 0))"
  shows "(\<exists>f. GetFileSize glob st c pattern = Inl f)
         \<and> (\<exists>f. MakeReaderPtr glob st c pattern = Inl f)
         \<and> ((\<forall>req. refuses st req = None) \<longrightarrow>
              GetFileSize glob st c pattern =
                Inl (HttpFailure HttpNone ''Error while reading header of first file.'')
              \<and> MakeReaderPtr glob st c pattern =
                  Inl (HttpFailure HttpNone ''Error while reading header of first file.''))"
proof -
  from assms(3) have ne: "ms \<noteq> []" and n1: "length ms \<noteq> 1" by auto
  have first: "find_blob st c (Name (ms ! 0)) = Some (ms ! 0)"
    using matching_blobs_found [OF assms(4), of "ms ! 0" glob pattern pos] assms(2) ne by simp
  have never: "FindHeader st c (Name (ms ! 0)) \<noteq> Inr (Some x)" for x
    using FindHeader_loop_never_Some [OF first assms(5)] by (simp add: FindHeader_def)
  have fails: "(\<exists>f. GetFileSize glob st c pattern = Inl f)
      \<and> (\<exists>f. MakeReaderPtr glob st c pattern = Inl f)"
  proof (cases "FilterList glob st c pattern pos")
    case (Inl f)
    with assms(1) show ?thesis
      by (simp add: GetFileSize_def GetFileSize_probing_def MakeReaderPtr_def)
  next
    case (Inr blobs)
    then have blobs: "blobs = ms"
      using assms(2) by (auto simp: FilterList_cases split: option.splits if_splits)
    show ?thesis
    proof (cases "FindHeader st c (Name (ms ! 0))")
      case (Inl e)
      with assms(1) Inr blobs n1 show ?thesis
        by (simp add: GetFileSize_def GetFileSize_probing_def MakeReaderPtr_def)
    next
      case found: (Inr h)
      with never have "h = None" by (cases h) auto
      with found assms(1) Inr blobs n1 show ?thesis
        by (simp add: GetFileSize_def GetFileSize_probing_def MakeReaderPtr_def)
    qed
  qed
  have exact: "GetFileSize glob st c pattern =
        Inl (HttpFailure HttpNone ''Error while reading header of first file.'')
      \<and> MakeReaderPtr glob st c pattern =
        Inl (HttpFailure HttpNone ''Error while reading header of first file.'')"
    if nr: "\<forall>req. refuses st req = None"
  proof -
    have fl: "FilterList glob st c pattern pos = Inr ms"
      using ne assms(2) nr by (simp add: FilterList_cases)
    have "FindHeader st c (Name (ms ! 0)) = Inr (first_line (Content (ms ! 0)))"
      using FindHeader_first_line [OF first] nr by simp
    then have "FindHeader st c (Name (ms ! 0)) = Inr None"
      using first_line_no_newline [OF assms(5)] by simp
    with assms(1) fl n1 show ?thesis
      by (simp add: GetFileSize_def GetFileSize_probing_def MakeReaderPtr_def)
  qed
  from fails exact show ?thesis by blast
qed

lemma headerless_facts:
  "2 \<le> length headerless_parts"
  "live_names_distinct (store_of headerless_parts) ''bucket''"
  "newline \<notin> set (Content (headerless_parts ! 0))"
  by (simp_all add: headerless_parts_def live_names_distinct_def store_of_def newline_def)

theorem headerless_first_part_fails_witness:
  "GetFileSize prefix_glob (store_of headerless_parts) ''bucket'' ''data-*'' =
     Inl (HttpFailure HttpNone ''Error while reading header of first file.'')
   \<and> MakeReaderPtr prefix_glob (store_of headerless_parts) ''bucket'' ''data-*'' =
       Inl (HttpFailure HttpNone ''Error while reading header of first file.'')"
  using headerless_first_part_fails
    [OF special_data_star matching_headerless [symmetric] headerless_facts]
    store_of_never_refuses
  by blast


text \<open>
  The claim as stated expects the size 6 and a reader for two parts \<^verbatim>\<open>abc\<close> and \<^verbatim>\<open>def\<close>.
  Both calls fail.
\<close>

theorem headerless_parts_counterexample:
  "GetFileSize prefix_glob (store_of headerless_parts) ''bucket'' ''data-*'' =
     Inl (HttpFailure HttpNone ''Error while reading header of first file.'')
   \<and> MakeReaderPtr prefix_glob (store_of headerless_parts) ''bucket'' ''data-*'' =
       Inl (HttpFailure HttpNone ''Error while reading header of first file.'')"
proof -
  let ?st = "store_of headerless_parts"
  let ?first = "\<lparr>Name = ''data-0.txt'', IsDeleted = False, Content = ''abc''\<rparr>"
  have fb: "find_blob ?st ''bucket'' ''data-0.txt'' = Some ?first"
    by (simp add: find_blob_def store_of_def headerless_parts_def)
  have "first_line ''abc'' = None"
    by (simp add: first_line_def newline_def)
  with FindHeader_first_line [OF fb] store_of_never_refuses
  have fh: "FindHeader ?st ''bucket'' ''data-0.txt'' = Inr None"
    by simp
  have "headerless_parts \<noteq> []"
    by (simp add: headerless_parts_def)
  then have fl: "FilterList prefix_glob ?st ''bucket'' ''data-*'' 5 = Inr headerless_parts"
    by (simp add: FilterList_cases store_of_never_refuses matching_headerless)
  have nm: "Name (headerless_parts ! 0) = ''data-0.txt''" "length headerless_parts = 2"
    by (simp_all add: headerless_parts_def)
  show ?thesis
    by (simp add: GetFileSize_def GetFileSize_probing_def MakeReaderPtr_def special_data_star
        fl nm fh)
qed

subsection \<open>Lists, buffers and the search in the cumulative sizes\<close>

lemma concat_drop_step:
  "i < length lp \<Longrightarrow> concat (drop i lp) = lp ! i @ concat (drop (Suc i) lp)"
  by (simp flip: Cons_nth_drop_Suc)

lemma length_concat_take_Suc:
  "i < length lp \<Longrightarrow>
     length (concat (take (Suc i) lp)) = length (concat (take i lp)) + length (lp ! i)"
  by (simp add: take_Suc_conv_app_nth)

lemma drop_concat_take:
  "drop (length (concat (take i lp))) (concat lp) = concat (drop i lp)"
proof -
  have "concat lp = concat (take i lp) @ concat (drop i lp)"
    by (simp flip: concat_append)
  then have "drop (length (concat (take i lp))) (concat lp) =
      drop (length (concat (take i lp))) (concat (take i lp) @ concat (drop i lp))"
    by simp
  then show ?thesis by simp
qed

lemma length_concat_split:
  "length (concat lp) = length (concat (take i lp)) + length (concat (drop i lp))"
proof -
  have "concat lp = concat (take i lp) @ concat (drop i lp)"
    by (simp flip: concat_append)
  then have "length (concat lp) = length (concat (take i lp) @ concat (drop i lp))"
    by simp
  then show ?thesis by simp
qed

lemma write_at_append:
  assumes "pos \<le> length buffer"
  shows "write_at (pos + length xs) ys (write_at pos xs buffer) = write_at pos (xs @ ys) buffer"
  using assms by (simp add: write_at_def min_def ac_simps)

lemma write_at_Nil: "pos \<le> length buffer \<Longrightarrow> write_at pos [] buffer = buffer"
  by (simp add: write_at_def)

lemma upper_bound_before: "j < upper_bound xs v \<Longrightarrow> xs ! j \<le> v"
proof -
  assume j: "j < upper_bound xs v"
  then have "j < length (takeWhile (\<lambda>x. \<not> v < x) xs)" by (simp add: upper_bound_def)
  then have "\<not> v < takeWhile (\<lambda>x. \<not> v < x) xs ! j \<and> takeWhile (\<lambda>x. \<not> v < x) xs ! j = xs ! j"
    using nth_mem [of j "takeWhile (\<lambda>x. \<not> v < x) xs"]
    by (auto dest: set_takeWhileD simp: takeWhile_nth)
  then show ?thesis by simp
qed

lemma upper_bound_at:
  "upper_bound xs v < length xs \<Longrightarrow> v < xs ! upper_bound xs v"
  unfolding upper_bound_def using nth_length_takeWhile [of "\<lambda>x. \<not> v < x" xs] by simp

lemma upper_bound_le: "upper_bound xs v \<le> length xs"
  by (simp add: upper_bound_def length_takeWhile_le)

lemma upper_bound_less:
  assumes "xs \<noteq> []" and "v < last xs"
  shows "upper_bound xs v < length xs"
proof (rule ccontr)
  assume "\<not> upper_bound xs v < length xs"
  with upper_bound_le [of xs v] have "upper_bound xs v = length xs" by simp
  moreover have "length xs - 1 < length xs" using assms(1) by simp
  ultimately have "xs ! (length xs - 1) \<le> v"
    by (intro upper_bound_before) simp
  with assms show False by (simp add: last_conv_nth)
qed

subsection \<open>Reading from a reader that agrees with the store\<close>

lemma part_download:
  assumes im: "index_matches st r lp" and nr: "\<forall>req. refuses st req = None"
    and i: "i < length lp" and y: "y \<le> length (lp ! i)"
  shows "\<exists>blob_size.
           DownloadTo st (rd_bucketname r) (rd_filenames r ! i)
             (int (part_offset r i) + int y) (int len) =
           Inr (take len (drop y (lp ! i)), blob_size)"
proof -
  from im i obtain item where
    item: "find_blob st (rd_bucketname r) (rd_filenames r ! i) = Some item"
    and po: "part_offset r i \<le> length (Content item)"
    and lg: "drop (part_offset r i) (Content item) = lp ! i"
    by (auto simp: index_matches_def)
  have "length (lp ! i) = length (Content item) - part_offset r i"
    by (simp flip: lg)
  with y po have le: "part_offset r i + y \<le> length (Content item)" by simp
  have "drop (part_offset r i + y) (Content item) = drop y (lp ! i)"
    by (simp flip: lg add: add.commute)
  moreover have "DownloadTo st (rd_bucketname r) (rd_filenames r ! i)
      (int (part_offset r i) + int y) (int len) =
      Inr (take (nat (int len)) (drop (nat (int (part_offset r i) + int y)) (Content item)),
           int (length (Content item)))"
    using le nr by (intro DownloadTo_ok [OF item]) simp_all
  moreover have "nat (int (part_offset r i) + int y) = part_offset r i + y"
    by simp
  ultimately show ?thesis by simp
qed

lemma read_range_part:
  assumes im: "index_matches st r lp" and nr: "\<forall>req. refuses st req = None"
    and i: "i < length lp" and y: "y \<le> length (lp ! i)"
  shows "read_range_and_update st (rd_bucketname r) (rd_filenames r ! i)
           (int (part_offset r i) + int y) (int len) rp =
         (rp\<lparr>rp_requests := rp_requests rp
                  @ [ReqDownload (rd_bucketname r) (rd_filenames r ! i)
                       (int (part_offset r i) + int y) (int len)],
              rp_offset := rp_offset rp + int len,
              rp_buffer := write_at (rp_buffer_pos rp) (take len (drop y (lp ! i))) (rp_buffer rp),
              rp_buffer_pos := rp_buffer_pos rp + len,
              rp_to_read := rp_to_read rp - int len\<rparr>, None)"
proof -
  from part_download [OF im nr i y, of len] obtain blob_size where
    "DownloadTo st (rd_bucketname r) (rd_filenames r ! i)
       (int (part_offset r i) + int y) (int len) =
     Inr (take len (drop y (lp ! i)), blob_size)"
    by blast
  then show ?thesis
    by (simp add: read_range_and_update_def Let_def)
qed

lemma ReadBytesInFile_loop_done:
  "rp_to_read rp = 0 \<Longrightarrow> ReadBytesInFile_loop st r idx rp = (rp, Done)"
  by (simp add: ReadBytesInFile_loop.simps [of st r idx rp])

lemma ReadBytesInFile_loop_next:
  assumes "rp_to_read rp \<noteq> 0"
    and "idx + 1 < length (rd_cumulativeSize r)" and "idx + 1 < length (rd_filenames r)"
    and "read_range_and_update st (rd_bucketname r) (rd_filenames r ! (idx + 1))
           (rd_commonHeaderLength r)
           (min (rp_to_read rp) (rd_cumulativeSize r ! (idx + 1) - rd_cumulativeSize r ! idx)) rp
         = (rp', None)"
  shows "ReadBytesInFile_loop st r idx rp = ReadBytesInFile_loop st r (idx + 1) rp'"
  using assms by (simp add: ReadBytesInFile_loop.simps [of st r idx rp])

lemma ReadBytesInFile_loop_reads:
  assumes im: "index_matches st r lp" and nr: "\<forall>req. refuses st req = None"
    and "idx < length lp"
    and "rp_to_read rp = int k"
    and "0 < k \<longrightarrow> rp_offset rp = int (length (concat (take (Suc idx) lp)))"
    and "k \<le> length (concat (drop (Suc idx) lp))"
    and "rp_buffer_pos rp \<le> length (rp_buffer rp)"
  shows "\<exists>more.
           ReadBytesInFile_loop st r idx rp =
             (rp\<lparr>rp_offset := rp_offset rp + int k,
                  rp_buffer := write_at (rp_buffer_pos rp)
                                 (take k (concat (drop (Suc idx) lp))) (rp_buffer rp),
                  rp_buffer_pos := rp_buffer_pos rp + k,
                  rp_to_read := 0,
                  rp_requests := rp_requests rp @ more\<rparr>, Done)
           \<and> (\<forall>q \<in> set more.
                 \<exists>name len. q = ReqDownload (rd_bucketname r) name (rd_commonHeaderLength r) len)"
  using assms(3-)
proof (induction "length lp - idx" arbitrary: idx rp k rule: less_induct)
  case less
  show ?case
  proof (cases "k = 0")
    case True
    with less.prems have stop: "ReadBytesInFile_loop st r idx rp = (rp, Done)"
      by (intro ReadBytesInFile_loop_done) simp
    have "rp\<lparr>rp_offset := rp_offset rp + int k,
              rp_buffer := write_at (rp_buffer_pos rp)
                             (take k (concat (drop (Suc idx) lp))) (rp_buffer rp),
              rp_buffer_pos := rp_buffer_pos rp + k,
              rp_to_read := 0,
              rp_requests := rp_requests rp @ []\<rparr> = rp"
      using True less.prems(2,5) by (simp add: write_at_Nil)
    with stop show ?thesis
      by (intro exI [of _ "[]"]) simp
  next
    case False
    then have kpos: "0 < k" by simp
    let ?D1 = "concat (drop (Suc idx) lp)"
    let ?D2 = "concat (drop (Suc (Suc idx)) lp)"
    let ?A = "lp ! Suc idx"
    have next_part: "Suc idx < length lp"
    proof (rule ccontr)
      assume "\<not> Suc idx < length lp"
      then have "?D1 = []" by simp
      with less.prems(4) kpos show False by simp
    qed
    have D1: "?D1 = ?A @ ?D2"
      using next_part by (rule concat_drop_step)
    let ?len = "min k (length ?A)"
    let ?k1 = "k - ?len"
    have lens: "length (rd_cumulativeSize r) = length lp" "length (rd_filenames r) = length lp"
      using im by (simp_all add: index_matches_def)
    have cum: "rd_cumulativeSize r ! (idx + 1) - rd_cumulativeSize r ! idx = int (length ?A)"
    proof -
      have "rd_cumulativeSize r ! Suc idx = int (length (concat (take (Suc (Suc idx)) lp)))"
        using im next_part by (simp add: index_matches_def)
      moreover have "rd_cumulativeSize r ! idx = int (length (concat (take (Suc idx) lp)))"
        using im less.prems(1) by (simp add: index_matches_def)
      ultimately show ?thesis
        using length_concat_take_Suc [OF next_part] by simp
    qed
    have hdr: "int (part_offset r (Suc idx)) + int 0 = rd_commonHeaderLength r"
      using im by (simp add: part_offset_def index_matches_def)
    have mn: "min (rp_to_read rp)
        (rd_cumulativeSize r ! (idx + 1) - rd_cumulativeSize r ! idx) = int ?len"
      using less.prems(2) cum by (simp add: min_def)
    let ?q = "ReqDownload (rd_bucketname r) (rd_filenames r ! Suc idx)
        (rd_commonHeaderLength r) (int ?len)"
    let ?rp1 = "rp\<lparr>rp_requests := rp_requests rp @ [?q],
        rp_offset := rp_offset rp + int ?len,
        rp_buffer := write_at (rp_buffer_pos rp) (take ?len ?A) (rp_buffer rp),
        rp_buffer_pos := rp_buffer_pos rp + ?len,
        rp_to_read := rp_to_read rp - int ?len\<rparr>"
    have step: "read_range_and_update st (rd_bucketname r) (rd_filenames r ! (idx + 1))
        (rd_commonHeaderLength r)
        (min (rp_to_read rp) (rd_cumulativeSize r ! (idx + 1) - rd_cumulativeSize r ! idx)) rp
        = (?rp1, None)"
      using read_range_part [OF im nr next_part, of 0 ?len rp]
      unfolding mn hdr by simp
    have unfold: "ReadBytesInFile_loop st r idx rp = ReadBytesInFile_loop st r (idx + 1) ?rp1"
      using less.prems(2) kpos next_part lens
      by (intro ReadBytesInFile_loop_next [OF _ _ _ step]) simp_all
    have p1: "rp_to_read ?rp1 = int ?k1"
      using less.prems(2) by (simp add: of_nat_diff)
    have p2: "0 < ?k1 \<longrightarrow> rp_offset ?rp1 = int (length (concat (take (Suc (Suc idx)) lp)))"
    proof
      assume "0 < ?k1"
      then have "?len = length ?A" by (simp add: min_def split: if_splits)
      with less.prems(3) kpos length_concat_take_Suc [OF next_part]
      show "rp_offset ?rp1 = int (length (concat (take (Suc (Suc idx)) lp)))"
        by simp
    qed
    have p3: "?k1 \<le> length ?D2"
    proof -
      from less.prems(4) have "k \<le> length ?A + length ?D2"
        unfolding D1 by simp
      then show ?thesis by (simp add: min_def) linarith
    qed
    have p4: "rp_buffer_pos ?rp1 \<le> length (rp_buffer ?rp1)"
      using less.prems(5) by (simp add: write_at_def min_def)
    have meas: "length lp - Suc idx < length lp - idx"
      using next_part by simp
    from less.hyps [OF meas next_part p1 p2 p3 p4]
    obtain more where
      rec: "ReadBytesInFile_loop st r (Suc idx) ?rp1 =
          (?rp1\<lparr>rp_offset := rp_offset ?rp1 + int ?k1,
                 rp_buffer := write_at (rp_buffer_pos ?rp1) (take ?k1 ?D2) (rp_buffer ?rp1),
                 rp_buffer_pos := rp_buffer_pos ?rp1 + ?k1,
                 rp_to_read := 0,
                 rp_requests := rp_requests ?rp1 @ more\<rparr>, Done)"
      and more: "\<forall>q \<in> set more.
          \<exists>name len. q = ReqDownload (rd_bucketname r) name (rd_commonHeaderLength r) len"
      by blast
    have tk: "take k ?D1 = take ?len ?A @ take ?k1 ?D2"
      unfolding D1 by (simp add: min_def)
    have lt: "length (take ?len ?A) = ?len" by simp
    have buf: "write_at (rp_buffer_pos rp + ?len) (take ?k1 ?D2)
        (write_at (rp_buffer_pos rp) (take ?len ?A) (rp_buffer rp)) =
        write_at (rp_buffer_pos rp) (take k ?D1) (rp_buffer rp)"
      using write_at_append [OF less.prems(5), of "take ?len ?A" "take ?k1 ?D2"]
      unfolding lt tk .
    have sum: "?len + ?k1 = k" by simp
    have final: "?rp1\<lparr>rp_offset := rp_offset ?rp1 + int ?k1,
                 rp_buffer := write_at (rp_buffer_pos ?rp1) (take ?k1 ?D2) (rp_buffer ?rp1),
                 rp_buffer_pos := rp_buffer_pos ?rp1 + ?k1,
                 rp_to_read := 0,
                 rp_requests := rp_requests ?rp1 @ more\<rparr> =
        rp\<lparr>rp_offset := rp_offset rp + int k,
            rp_buffer := write_at (rp_buffer_pos rp) (take k ?D1) (rp_buffer rp),
            rp_buffer_pos := rp_buffer_pos rp + k,
            rp_to_read := 0,
            rp_requests := rp_requests rp @ (?q # more)\<rparr>"
      using buf sum by (simp add: min_def)
    have "\<forall>q \<in> set (?q # more).
        \<exists>name len. q = ReqDownload (rd_bucketname r) name (rd_commonHeaderLength r) len"
      using more by simp
    with unfold rec final show ?thesis
      by (intro exI [of _ "?q # more"]) simp
  qed
qed

lemma min_int_nat: "0 \<le> n \<Longrightarrow> min n (int m) = int (min (nat n) m)"
  by (simp add: min_def) linarith

lemma index_matches_offset [simp]:
  "index_matches st (r\<lparr>rd_offset := off\<rparr>) lp = index_matches st r lp"
  by (simp add: index_matches_def part_offset_def)

lemma index_matches_last:
  assumes "index_matches st r lp"
  shows "rd_cumulativeSize r \<noteq> []" and "last (rd_cumulativeSize r) = rd_total_size r"
proof -
  from assms have len: "length (rd_cumulativeSize r) = length lp" and ne: "lp \<noteq> []"
    and tot: "rd_total_size r = int (length (concat lp))"
    by (simp_all add: index_matches_def)
  from len ne show ne': "rd_cumulativeSize r \<noteq> []" by auto
  have "length lp - 1 < length lp" using ne by simp
  with assms have "rd_cumulativeSize r ! (length lp - 1) =
      int (length (concat (take (Suc (length lp - 1)) lp)))"
    unfolding index_matches_def by blast
  moreover have "Suc (length lp - 1) = length lp" using ne by simp
  ultimately have "rd_cumulativeSize r ! (length lp - 1) = int (length (concat lp))"
    by simp
  with ne' len tot show "last (rd_cumulativeSize r) = rd_total_size r"
    by (simp add: last_conv_nth)
qed

lemma ReadBytesInFile_success:
  assumes "idx = upper_bound (rd_cumulativeSize mf) (rd_offset mf)"
    and "idx < length (rd_cumulativeSize mf)" and "idx < length (rd_filenames mf)"
    and "read_range_and_update st (rd_bucketname mf) (rd_filenames mf ! idx)
           (if idx = 0 then rd_offset mf
            else rd_offset mf - rd_cumulativeSize mf ! (idx - 1) + rd_commonHeaderLength mf)
           (min to_read (rd_cumulativeSize mf ! idx - rd_offset mf))
           \<lparr>rp_offset = rd_offset mf, rp_buffer = buffer, rp_buffer_pos = 0,
              rp_to_read = to_read, rp_requests = []\<rparr> = (rp1, None)"
    and "ReadBytesInFile_loop st mf idx rp1 = (rp2, Done)"
  shows "ReadBytesInFile st mf buffer to_read =
           ((mf\<lparr>rd_offset := rp_offset rp2\<rparr>, rp_buffer rp2, rp_requests rp2),
            ReadSuccess (rp_to_read rp2))"
  using assms(2-) unfolding ReadBytesInFile_def Let_def assms(1) [symmetric]
  by (simp add: not_le)

lemma ReadBytesInFile_reads:
  assumes im: "index_matches st r lp" and nr: "\<forall>req. refuses st req = None"
    and off: "0 \<le> off" and n: "0 < n" and range: "off + n \<le> rd_total_size r"
    and idx: "idx = upper_bound (rd_cumulativeSize r) off"
  shows "\<exists>reqs.
           ReadBytesInFile st (r\<lparr>rd_offset := off\<rparr>) buffer n =
             ((r\<lparr>rd_offset := off + n\<rparr>,
               write_at 0 (take (nat n) (drop (nat off) (concat lp))) buffer, reqs),
              ReadSuccess 0)
           \<and> reqs \<noteq> []
           \<and> hd reqs = ReqDownload (rd_bucketname r) (rd_filenames r ! idx)
                          (if idx = 0 then off
                           else off - rd_cumulativeSize r ! (idx - 1) + rd_commonHeaderLength r)
                          (min n (rd_cumulativeSize r ! idx - off))
           \<and> (\<forall>q \<in> set (tl reqs).
                 \<exists>name len. q = ReqDownload (rd_bucketname r) name (rd_commonHeaderLength r) len)"
proof -
  define mf where "mf = r\<lparr>rd_offset := off\<rparr>"
  define cs where "cs = rd_cumulativeSize r"
  define E where "E = concat lp"
  define c where "c = (\<lambda>i. length (concat (take i lp)))"
  define o' where "o' = nat off"
  define k where "k = nat n"
  have mf_simps: "rd_offset mf = off" "rd_cumulativeSize mf = cs"
    "rd_filenames mf = rd_filenames r" "rd_bucketname mf = rd_bucketname r"
    "rd_commonHeaderLength mf = rd_commonHeaderLength r"
    by (simp_all add: mf_def cs_def)
  have im': "index_matches st mf lp" using im by (simp add: mf_def)
  have lens: "length cs = length lp" "length (rd_filenames r) = length lp"
    and tot: "rd_total_size r = int (length E)"
    and hdr0: "0 \<le> rd_commonHeaderLength r"
    using im by (simp_all add: index_matches_def cs_def E_def)
  have cs_nth: "\<And>i. i < length lp \<Longrightarrow> cs ! i = int (c (Suc i))"
    using im by (simp add: index_matches_def cs_def c_def)
  have o_int: "int o' = off" using off by (simp add: o'_def)
  have k_int: "int k = n" and kpos: "0 < k" using n by (simp_all add: k_def)
  have lt_total: "off < last cs"
    using index_matches_last(2) [OF im] n range by (simp add: cs_def)
  have idx_lt: "idx < length lp"
    using upper_bound_less [OF index_matches_last(1) [OF im]] lt_total idx lens
    by (simp add: cs_def)
  have upper: "o' < c (Suc idx)"
  proof -
    have "off < cs ! idx"
      using upper_bound_at [of cs off] idx idx_lt lens by (simp add: cs_def)
    with cs_nth [OF idx_lt] o_int show ?thesis by simp
  qed
  have lower: "c idx \<le> o'"
  proof (cases idx)
    case 0
    then show ?thesis by (simp add: c_def)
  next
    case (Suc j)
    with idx have "j < upper_bound cs off" by (simp add: cs_def)
    then have "cs ! j \<le> off" by (rule upper_bound_before)
    moreover have "cs ! j = int (c (Suc j))"
      using cs_nth [of j] idx_lt Suc by simp
    ultimately show ?thesis using Suc o_int by simp
  qed
  define y where "y = o' - c idx"
  define A where "A = lp ! idx"
  define D where "D = concat (drop (Suc idx) lp)"
  have cSuc: "c (Suc idx) = c idx + length A"
    unfolding c_def A_def using idx_lt by (rule length_concat_take_Suc)
  have o_eq: "o' = c idx + y" using lower by (simp add: y_def)
  have y_lt: "y < length A" using upper cSuc o_eq by simp
  have y_le: "y \<le> length A" using y_lt by simp
  define X where "X = drop y A"
  have lenX: "length X = length A - y" by (simp add: X_def)
  define rl where "rl = min k (length X)"
  define k1 where "k1 = k - rl"
  have rl_le: "rl \<le> k" "rl \<le> length X" by (simp_all add: rl_def)
  have k_sum: "rl + k1 = k" using rl_le by (simp add: k1_def)
  have E_split: "length E = c (Suc idx) + length D"
    unfolding E_def c_def D_def by (rule length_concat_split)
  have drop_o: "drop o' E = X @ D"
  proof -
    have "drop o' E = drop y (drop (c idx) E)"
      by (subst o_eq) (simp add: add.commute)
    also have "drop (c idx) E = concat (drop idx lp)"
      unfolding c_def E_def by (rule drop_concat_take)
    also have "concat (drop idx lp) = A @ D"
      unfolding A_def D_def using idx_lt by (rule concat_drop_step)
    finally show ?thesis using y_le by (simp add: X_def)
  qed
  have tk: "take k (drop o' E) = take rl X @ take k1 D"
  proof -
    have "take k (X @ D) = take k X @ take (k - length X) D" by simp
    moreover have "take k X = take rl X" by (simp add: rl_def min_def)
    moreover have "k - length X = k1" by (simp add: k1_def rl_def min_def)
    ultimately show ?thesis unfolding drop_o by simp
  qed
  define start where "start = (if idx = 0 then off
      else off - cs ! (idx - 1) + rd_commonHeaderLength r)"
  have start: "start = int (part_offset mf idx) + int y"
  proof (cases idx)
    case 0
    then have "c idx = 0" by (simp add: c_def)
    with 0 o_eq o_int show ?thesis by (simp add: start_def part_offset_def)
  next
    case (Suc j)
    have "cs ! j = int (c idx)" using cs_nth [of j] idx_lt Suc by simp
    moreover have "off = int (c idx) + int y" using o_eq o_int by simp
    ultimately show ?thesis
      using Suc hdr0 by (simp add: start_def part_offset_def mf_simps)
  qed
  have rlen: "min n (cs ! idx - off) = int rl"
  proof -
    have "cs ! idx = int (c idx) + int (length A)"
      using cs_nth [OF idx_lt] cSuc by simp
    moreover have "off = int (c idx) + int y" using o_eq o_int by simp
    ultimately have "cs ! idx - off = int (length X)"
      using y_le lenX by simp
    moreover have "min n (int (length X)) = int (min (nat n) (length X))"
      using n by (intro min_int_nat) simp
    ultimately show ?thesis by (simp add: rl_def k_def)
  qed
  define q0 where "q0 = ReqDownload (rd_bucketname r) (rd_filenames r ! idx) start (int rl)"
  define rp1 where "rp1 = \<lparr>rp_offset = off + int rl, rp_buffer = write_at 0 (take rl X) buffer,
      rp_buffer_pos = rl, rp_to_read = n - int rl, rp_requests = [q0]\<rparr>"
  have first: "read_range_and_update st (rd_bucketname mf) (rd_filenames mf ! idx)
      (if idx = 0 then rd_offset mf
       else rd_offset mf - rd_cumulativeSize mf ! (idx - 1) + rd_commonHeaderLength mf)
      (min n (rd_cumulativeSize mf ! idx - rd_offset mf))
      \<lparr>rp_offset = rd_offset mf, rp_buffer = buffer, rp_buffer_pos = 0,
         rp_to_read = n, rp_requests = []\<rparr> = (rp1, None)"
  proof -
    have "read_range_and_update st (rd_bucketname mf) (rd_filenames mf ! idx)
        (int (part_offset mf idx) + int y) (int rl)
        \<lparr>rp_offset = off, rp_buffer = buffer, rp_buffer_pos = 0,
           rp_to_read = n, rp_requests = []\<rparr> = (rp1, None)"
      unfolding read_range_part [OF im' nr idx_lt y_le [unfolded A_def]]
      by (simp add: rp1_def q0_def start mf_simps X_def A_def)
    then show ?thesis
      unfolding mf_simps rlen start [symmetric] start_def [symmetric] .
  qed
  have p1: "rp_to_read rp1 = int k1"
    using k_int k_sum by (simp add: rp1_def)
  have p2: "0 < k1 \<longrightarrow> rp_offset rp1 = int (length (concat (take (Suc idx) lp)))"
  proof
    assume "0 < k1"
    then have "rl = length X" by (simp add: k1_def rl_def min_def split: if_splits)
    then have "o' + rl = c (Suc idx)" using cSuc o_eq y_le lenX by simp
    then have "off + int rl = int (c (Suc idx))" using o_int by simp
    then show "rp_offset rp1 = int (length (concat (take (Suc idx) lp)))"
      by (simp add: rp1_def c_def)
  qed
  have kE: "o' + k \<le> length E" using range tot o_int k_int by simp
  have p3: "k1 \<le> length (concat (drop (Suc idx) lp))"
  proof -
    have "k1 \<le> length D"
    proof (cases "k \<le> length X")
      case True
      then show ?thesis by (simp add: k1_def rl_def)
    next
      case False
      then have "rl = length X" by (simp add: rl_def)
      with kE E_split cSuc o_eq y_le lenX show ?thesis by (simp add: k1_def)
    qed
    then show ?thesis by (simp add: D_def)
  qed
  have p4: "rp_buffer_pos rp1 \<le> length (rp_buffer rp1)"
    using rl_le(2) by (simp add: rp1_def write_at_def)
  from ReadBytesInFile_loop_reads [OF im' nr idx_lt p1 p2 p3 p4]
  obtain more rp2 where
    loop: "ReadBytesInFile_loop st mf idx rp1 = (rp2, Done)"
    and rp2: "rp2 = rp1\<lparr>rp_offset := rp_offset rp1 + int k1,
               rp_buffer := write_at (rp_buffer_pos rp1)
                   (take k1 (concat (drop (Suc idx) lp))) (rp_buffer rp1),
               rp_buffer_pos := rp_buffer_pos rp1 + k1,
               rp_to_read := 0,
               rp_requests := rp_requests rp1 @ more\<rparr>"
    and more: "\<forall>q \<in> set more.
        \<exists>name len. q = ReqDownload (rd_bucketname mf) name (rd_commonHeaderLength mf) len"
    by blast
  have lt: "length (take rl X) = rl" using rl_le(2) by simp
  have buf: "write_at rl (take k1 D) (write_at 0 (take rl X) buffer) =
      write_at 0 (take k (drop o' E)) buffer"
    using write_at_append [of 0 buffer "take rl X" "take k1 D"]
    unfolding lt tk by simp
  have r_off: "rp_offset rp2 = off + n"
    using k_int k_sum by (simp add: rp2 rp1_def)
  have r_buf: "rp_buffer rp2 = write_at 0 (take (nat n) (drop (nat off) (concat lp))) buffer"
    using buf by (simp add: rp2 rp1_def D_def E_def k_def o'_def)
  have r_req: "rp_requests rp2 = q0 # more" by (simp add: rp2 rp1_def)
  have r_to: "rp_to_read rp2 = 0" by (simp add: rp2)
  have idx': "idx = upper_bound (rd_cumulativeSize mf) (rd_offset mf)"
    using idx by (simp add: mf_simps cs_def)
  have in1: "idx < length (rd_cumulativeSize mf)" and in2: "idx < length (rd_filenames mf)"
    using idx_lt lens by (simp_all add: mf_simps)
  from ReadBytesInFile_success [OF idx' in1 in2 first loop]
  have result: "ReadBytesInFile st (r\<lparr>rd_offset := off\<rparr>) buffer n =
      ((r\<lparr>rd_offset := off + n\<rparr>,
        write_at 0 (take (nat n) (drop (nat off) (concat lp))) buffer, q0 # more),
       ReadSuccess 0)"
    unfolding r_off r_buf r_req r_to by (simp add: mf_def)
  have q0: "q0 = ReqDownload (rd_bucketname r) (rd_filenames r ! idx)
      (if idx = 0 then off else off - rd_cumulativeSize r ! (idx - 1) + rd_commonHeaderLength r)
      (min n (rd_cumulativeSize r ! idx - off))"
    unfolding q0_def start_def cs_def [symmetric] rlen ..
  from result q0 more show ?thesis
    by (intro exI [of _ "q0 # more"]) (simp add: mf_simps)
qed

subsection \<open>The reader of parts with a shared header\<close>

lemma length_elided_rest:
  assumes "\<forall>item \<in> set rest. L \<le> length (Content item)"
  shows "int (length (concat (map (\<lambda>item. drop L (Content item)) (take i rest)))) =
           sum_list (map BlobSize (take i rest)) - int (min i (length rest) * L)"
  using assms
proof (induction rest arbitrary: i)
  case Nil
  then show ?case by simp
next
  case (Cons item rest)
  show ?case
  proof (cases i)
    case 0
    then show ?thesis by simp
  next
    case (Suc j)
    from Cons.prems have L: "L \<le> length (Content item)"
      and rest: "\<forall>item \<in> set rest. L \<le> length (Content item)" by simp_all
    from Cons.IH [OF rest, of j] L Suc show ?thesis
      by (simp add: BlobSize_def of_nat_diff algebra_simps)
  qed
qed

lemma subtract_headers_nth:
  assumes "i < length cs"
  shows "subtract_headers L cs ! i = cs ! i - int (i * L)"
proof (cases i)
  case 0
  with assms show ?thesis by (cases cs) (simp_all add: subtract_headers_def)
next
  case (Suc j)
  from assms obtain x xs where cs: "cs = x # xs" by (cases cs) auto
  from assms Suc have "j < length [1..<length cs]" by simp
  with Suc assms cs show ?thesis
    by (simp add: subtract_headers_def nth_append algebra_simps del: upt_Suc)
qed

lemma length_subtract_headers: "cs \<noteq> [] \<Longrightarrow> length (subtract_headers L cs) = length cs"
  by (cases cs) (auto simp: subtract_headers_def not_le)

lemma MakeReaderPtr_shared_index:
  assumes "FindPatternSpecialChar pattern = Some pos"
    and "ms = matching_blobs glob st c pattern pos" and "2 \<le> length ms"
    and "live_names_distinct st c"
    and "\<forall>req. refuses st req = None"
    and "first_line (Content (ms ! 0)) = Some header"
    and "\<forall>item \<in> set (tl ms). take (length header) (Content item) = header"
  shows "\<exists>reader. MakeReaderPtr glob st c pattern = Inr reader
           \<and> index_matches st reader (logical_parts (length header) ms)
           \<and> rd_bucketname reader = c \<and> rd_filenames reader = map Name ms
           \<and> rd_commonHeaderLength reader = int (length header)"
proof -
  let ?L = "length header"
  let ?buf0 = "replicate ?L (CHR 0x00)"
  let ?lp = "logical_parts ?L ms"
  from assms(3) have ne: "ms \<noteq> []" and n1: "length ms \<noteq> 1" by auto
  then obtain first_part rest where ms: "ms = first_part # rest" by (cases ms) auto
  have nr: "\<And>req. refuses st req = None" using assms(5) by simp
  have found: "\<And>item. item \<in> set ms \<Longrightarrow> find_blob st c (Name item) = Some item"
    using matching_blobs_found [OF assms(4)] assms(2) by simp
  have first: "find_blob st c (Name (ms ! 0)) = Some (ms ! 0)"
    using found [of "ms ! 0"] ne by simp
  have fh: "FindHeader st c (Name (ms ! 0)) = Inr (Some header)"
    using FindHeader_first_line [OF first] nr assms(6) by simp
  have fl: "FilterList glob st c pattern pos = Inr ms"
    using ne assms(2) nr by (simp add: FilterList_cases)
  have parts: "\<forall>item \<in> set (tl ms).
      find_blob st c (Name item) = Some item
      \<and> (\<forall>a l. refuses st (ReqDownload c (Name item) a l) = None)"
    using found nr ne by (auto dest: list.set_sel(2))
  from first_line_last [OF assms(6)] newline_not_zero
  have hne: "header \<noteq> []" and hl: "last header \<noteq> CHR 0x00" by simp_all
  have js: "judged_same header (tl ms)"
    using assms(7) by (rule judged_same_shared)
  from GetFileSize_loop_exact [OF parts hne hl, of "BlobSize (ms ! 0)"] js
  obtain buf' where
    loop: "GetFileSize_loop st c header (tl ms) (BlobSize (ms ! 0), True, ?buf0, []) =
             Inr (BlobSize (ms ! 0) + sum_list (map BlobSize (tl ms)), True, buf',
                  map Name (compared_parts header (tl ms)))"
    by auto
  have cs0: "[BlobSize (ms ! 0)] \<noteq> []" "last [BlobSize (ms ! 0)] = BlobSize (ms ! 0)"
    by simp_all
  from MakeReaderPtr_loop_agrees [OF cs0, where st = st and c = c and header = header
      and items = "tl ms" and same = True and buf = ?buf0 and probed = "[]"
      and fns = "[Name (ms ! 0)]"] loop
  obtain cs' where
    mk: "MakeReaderPtr_loop st c header (tl ms)
           ([Name (ms ! 0)], [BlobSize (ms ! 0)], True, ?buf0) =
         Inr ([Name (ms ! 0)] @ map Name (tl ms), cs', True, buf')"
    and lcs: "length cs' = length [BlobSize (ms ! 0)] + length (tl ms)"
    and tk: "take (length [BlobSize (ms ! 0)]) cs' = [BlobSize (ms ! 0)]"
    and nth: "\<forall>i < length (tl ms).
        cs' ! (length [BlobSize (ms ! 0)] + i) =
          last [BlobSize (ms ! 0)] + sum_list (map BlobSize (take (i + 1) (tl ms)))"
    by auto
  have lcs': "length cs' = length ms" using lcs ne by simp
  have csne: "cs' \<noteq> []" using lcs' ne by auto
  have cs_nth: "cs' ! i = sum_list (map BlobSize (take (Suc i) ms))" if "i < length ms" for i
  proof (cases i)
    case 0
    have "cs' ! 0 = take 1 cs' ! 0" by simp
    also have "\<dots> = BlobSize (ms ! 0)" using tk by simp
    finally show ?thesis using 0 ms by simp
  next
    case (Suc j)
    with that ms have "j < length (tl ms)" by simp
    with nth have "cs' ! (1 + j) = BlobSize (ms ! 0) + sum_list (map BlobSize (take (j + 1) (tl ms)))"
      by simp
    with Suc ms show ?thesis by simp
  qed
  define reader where "reader = make_Reader c pattern 0 (int ?L)
      ([Name (ms ! 0)] @ map Name (tl ms)) (subtract_headers ?L cs')"
  have reader: "MakeReaderPtr glob st c pattern = Inr reader"
    using assms(1) fl n1 fh mk by (simp add: MakeReaderPtr_def reader_def)
  have names: "rd_filenames reader = map Name ms"
    using ms by (simp add: reader_def make_Reader_def)
  have big: "\<forall>item \<in> set rest. ?L \<le> length (Content item)"
  proof
    fix item assume "item \<in> set rest"
    with assms(7) ms have "take ?L (Content item) = header" by simp
    then have "length (take ?L (Content item)) = ?L" by simp
    then show "?L \<le> length (Content item)" by simp
  qed
  have lp: "?lp = Content first_part # map (\<lambda>item. drop ?L (Content item)) rest"
    by (simp add: logical_parts_def ms)
  have llp: "length ?lp = length ms" unfolding lp by (simp add: ms)
  have run: "int (length (concat (take (Suc i) ?lp))) = cs' ! i - int (i * ?L)"
    if "i < length ms" for i
  proof -
    have "int (length (concat (take (Suc i) ?lp))) =
        BlobSize first_part
        + int (length (concat (map (\<lambda>item. drop ?L (Content item)) (take i rest))))"
      by (simp add: lp BlobSize_def take_map)
    also have "\<dots> = BlobSize first_part + sum_list (map BlobSize (take i rest))
        - int (min i (length rest) * ?L)"
      using length_elided_rest [OF big, of i] by simp
    also have "min i (length rest) = i" using that ms by simp
    also have "BlobSize first_part + sum_list (map BlobSize (take i rest)) = cs' ! i"
      using cs_nth [OF that] ms by simp
    finally show ?thesis .
  qed
  have cum: "rd_cumulativeSize reader ! i = int (length (concat (take (Suc i) ?lp)))"
    if "i < length ms" for i
    using run [OF that] subtract_headers_nth [of i cs' ?L] that lcs'
    by (simp add: reader_def make_Reader_def)
  have lcum: "length (rd_cumulativeSize reader) = length ms"
    using length_subtract_headers [OF csne] lcs' by (simp add: reader_def make_Reader_def)
  have total: "rd_total_size reader = int (length (concat ?lp))"
  proof -
    have sne: "subtract_headers ?L cs' \<noteq> []"
      using length_subtract_headers [OF csne, of ?L] csne by auto
    have "rd_total_size reader = last (rd_cumulativeSize reader)"
      using sne by (simp add: reader_def make_Reader_def)
    also have "\<dots> = rd_cumulativeSize reader ! (length ms - 1)"
      using sne lcum by (simp add: last_conv_nth reader_def make_Reader_def)
    also have "\<dots> = int (length (concat (take (Suc (length ms - 1)) ?lp)))"
      using ne by (intro cum) simp
    also have "Suc (length ms - 1) = length ?lp" using ne llp by simp
    finally show ?thesis by simp
  qed
  have blobs: "\<exists>item. find_blob st (rd_bucketname reader) (rd_filenames reader ! i) = Some item
      \<and> part_offset reader i \<le> length (Content item)
      \<and> drop (part_offset reader i) (Content item) = ?lp ! i"
    if "i < length ms" for i
  proof (intro exI [of _ "ms ! i"] conjI)
    show "find_blob st (rd_bucketname reader) (rd_filenames reader ! i) = Some (ms ! i)"
      using found [of "ms ! i"] that names by (simp add: reader_def make_Reader_def)
  next
    show "part_offset reader i \<le> length (Content (ms ! i))"
    proof (cases i)
      case 0
      then show ?thesis by (simp add: part_offset_def)
    next
      case (Suc j)
      with that ms big show ?thesis
        by (simp add: part_offset_def reader_def make_Reader_def)
    qed
  next
    show "drop (part_offset reader i) (Content (ms ! i)) = ?lp ! i"
    proof (cases i)
      case 0
      then show ?thesis unfolding lp by (simp add: part_offset_def ms)
    next
      case (Suc j)
      with that ms show ?thesis
        unfolding lp by (simp add: part_offset_def reader_def make_Reader_def)
    qed
  qed
  have "index_matches st reader ?lp"
    unfolding index_matches_def llp
    using ne lcum names cum blobs total
    by (simp add: lp reader_def make_Reader_def)
  moreover have "rd_bucketname reader = c" "rd_commonHeaderLength reader = int ?L"
    by (simp_all add: reader_def make_Reader_def)
  ultimately show ?thesis using reader names by blast
qed

subsection \<open>Reading across parts\<close>

text \<open>
  C2. Let a pattern match \<open>n \<ge> 2\<close> parts \<open>ms\<close> of a container with one live blob per
  name, let no request fail, let every later part begin with the first line \<open>header\<close> of
  the first part, and let \<open>reader\<close> be the reader that \<^verbatim>\<open>MakeReaderPtr\<close> builds. Then every
  read of \<open>n > 0\<close> bytes at a logical offset \<open>off \<ge> 0\<close> with \<open>off + n\<close> within the total
  size, into a buffer of at least \<open>n\<close> bytes, whether or not it spans a part boundary,
  succeeds, moves the cursor to \<open>off + n\<close>, and puts at the start of the buffer the \<open>n\<close>
  bytes at \<open>off\<close> of the elided concatenation (the first part, then every later part
  without its first \<open>length header\<close> bytes). The first download starts, in the
  part \<open>idx\<close> that holds \<open>off\<close>, at \<open>off\<close> itself if \<open>idx = 0\<close> and at
  \<open>off - cumulative size (idx - 1) + length header\<close> otherwise; every later download starts at
  physical offset \<open>length header\<close>.
\<close>

theorem read_returns_elided_bytes:
  assumes "FindPatternSpecialChar pattern = Some pos"
    and "ms = matching_blobs glob st c pattern pos" and "2 \<le> length ms"
    and "live_names_distinct st c"
    and "\<forall>req. refuses st req = None"
    and "first_line (Content (ms ! 0)) = Some header"
    and "\<forall>item \<in> set (tl ms). take (length header) (Content item) = header"
    and "MakeReaderPtr glob st c pattern = Inr reader"
    and "0 \<le> off" and "0 < n" and "off + n \<le> rd_total_size reader"
    and "nat n \<le> length buffer"
    and "idx = upper_bound (rd_cumulativeSize reader) off"
  shows "\<exists>reqs.
           ReadBytesInFile st (reader\<lparr>rd_offset := off\<rparr>) buffer n =
             ((reader\<lparr>rd_offset := off + n\<rparr>,
               take (nat n) (drop (nat off) (elided (length header) ms)) @ drop (nat n) buffer,
               reqs),
              ReadSuccess 0)
           \<and> length (take (nat n) (drop (nat off) (elided (length header) ms))) = nat n
           \<and> reqs \<noteq> []
           \<and> hd reqs = ReqDownload c (map Name ms ! idx)
                          (if idx = 0 then off
                           else off - rd_cumulativeSize reader ! (idx - 1) + int (length header))
                          (min n (rd_cumulativeSize reader ! idx - off))
           \<and> (\<forall>q \<in> set (tl reqs). \<exists>name len. q = ReqDownload c name (int (length header)) len)"
proof -
  let ?E = "elided (length header) ms"
  from MakeReaderPtr_shared_index [OF assms(1-7)] assms(8)
  have im: "index_matches st reader (logical_parts (length header) ms)"
    and fields: "rd_bucketname reader = c" "rd_filenames reader = map Name ms"
      "rd_commonHeaderLength reader = int (length header)"
    by auto
  from im have tot: "rd_total_size reader = int (length ?E)"
    by (simp add: index_matches_def elided_def)
  from ReadBytesInFile_reads [OF im assms(5,9,10,11,13), of buffer]
  obtain reqs where
    rd: "ReadBytesInFile st (reader\<lparr>rd_offset := off\<rparr>) buffer n =
          ((reader\<lparr>rd_offset := off + n\<rparr>,
            write_at 0 (take (nat n) (drop (nat off) ?E)) buffer, reqs),
           ReadSuccess 0)"
    and ne: "reqs \<noteq> []"
    and h: "hd reqs = ReqDownload (rd_bucketname reader) (rd_filenames reader ! idx)
              (if idx = 0 then off
               else off - rd_cumulativeSize reader ! (idx - 1) + rd_commonHeaderLength reader)
              (min n (rd_cumulativeSize reader ! idx - off))"
    and t: "\<forall>q \<in> set (tl reqs).
              \<exists>name len. q = ReqDownload (rd_bucketname reader) name
                                 (rd_commonHeaderLength reader) len"
    unfolding elided_def by blast
  have len: "length (take (nat n) (drop (nat off) ?E)) = nat n"
    using assms(9,10,11) tot by simp
  have "write_at 0 (take (nat n) (drop (nat off) ?E)) buffer =
      take (nat n) (drop (nat off) ?E) @ drop (nat n) buffer"
    unfolding write_at_def len by simp
  with rd len ne h t show ?thesis
    unfolding fields by (intro exI [of _ reqs]) simp
qed

lemma MakeReaderPtr_two_parts:
  "MakeReaderPtr prefix_glob two_parts_store ''bucket'' ''data-*'' = Inr two_parts_reader"
proof -
  have fb: "find_blob two_parts_store ''bucket'' (Name (two_parts ! 0)) = Some (two_parts ! 0)"
    using find_blob_plain(1) by (simp add: two_parts_def)
  have fh: "FindHeader two_parts_store ''bucket'' (Name (two_parts ! 0)) = Inr (Some header10)"
    using FindHeader_first_line [OF fb] two_parts_store_never_refuses first_line_part0
    by (simp add: two_parts_def)
  have fl: "FilterList prefix_glob two_parts_store ''bucket'' ''data-*'' 5 = Inr two_parts"
    by (simp add: FilterList_cases two_parts_store_never_refuses matching_data_star)
      (simp add: two_parts_def)
  have same: "IsSameHeader two_parts_store ''bucket''
      \<lparr>Name = ''data-1.txt'', IsDeleted = False, Content = part1\<rparr> header10
      (replicate (length header10) (CHR 0x00)) = Inr (True, header10)"
    using IsSameHeader_ok [of two_parts_store "''bucket''"
        "\<lparr>Name = ''data-1.txt'', IsDeleted = False, Content = part1\<rparr>" header10
        "replicate (length header10) (CHR 0x00)"]
      find_blob_plain(2) two_parts_store_never_refuses
    by (simp add: overwrite_start_def part1_def header10_def)
  have loop: "MakeReaderPtr_loop two_parts_store ''bucket'' header10 (tl two_parts)
      ([Name (two_parts ! 0)], [BlobSize (two_parts ! 0)], True,
       replicate (length header10) (CHR 0x00)) =
      Inr ([''data-0.txt'', ''data-1.txt''], [100, 200], True, header10)"
    using same by (simp add: two_parts_def BlobSize_def len_part0)
  have n: "length two_parts = 2" by (simp add: two_parts_def)
  have sub: "subtract_headers (length header10) [100, 200] = [100, 190]"
    by (simp add: subtract_headers_def header10_def)
  show ?thesis
    by (simp add: MakeReaderPtr_def special_data_star fl n fh loop sub two_parts_reader_def)
      (simp add: header10_def)
qed

lemma read_across_boundary:
  "ReadBytesInFile two_parts_store (two_parts_reader\<lparr>rd_offset := 95\<rparr>)
     (replicate 20 (CHR ''.'')) 20 =
   ((two_parts_reader\<lparr>rd_offset := 115\<rparr>, ''vwxyzABCDEFGHIJKLMNO'',
     [ReqDownload ''bucket'' ''data-0.txt'' 95 5, ReqDownload ''bucket'' ''data-1.txt'' 10 15]),
    ReadSuccess 0)"
  by (simp add: ReadBytesInFile_def two_parts_reader_def make_Reader_def upper_bound_def
      read_range_and_update_def DownloadTo_def find_blob_plain two_parts_store_never_refuses
      BlobSize_def len_part0 slice_part0 slice_part1 write_at_def ReadBytesInFile_loop.simps
      Let_def)

theorem read_returns_elided_bytes_witness:
  "ReadBytesInFile two_parts_store (two_parts_reader\<lparr>rd_offset := 95\<rparr>)
     (replicate 20 (CHR ''.'')) 20 =
   ((two_parts_reader\<lparr>rd_offset := 115\<rparr>, ''vwxyzABCDEFGHIJKLMNO'',
     [ReqDownload ''bucket'' ''data-0.txt'' 95 5, ReqDownload ''bucket'' ''data-1.txt'' 10 15]),
    ReadSuccess 0)
   \<and> (\<exists>reqs.
        ReadBytesInFile two_parts_store (two_parts_reader\<lparr>rd_offset := 95\<rparr>)
          (replicate 20 (CHR ''.'')) 20 =
          ((two_parts_reader\<lparr>rd_offset := 115\<rparr>, ''vwxyzABCDEFGHIJKLMNO'', reqs),
           ReadSuccess 0)
        \<and> hd reqs = ReqDownload ''bucket'' ''data-0.txt'' 95 5
        \<and> (\<forall>q \<in> set (tl reqs). \<exists>name len. q = ReqDownload ''bucket'' name 10 len))"
proof -
  have n2: "2 \<le> length two_parts" by (simp add: two_parts_def)
  have nr: "\<forall>req. refuses two_parts_store req = None"
    by (simp add: two_parts_store_never_refuses)
  have f2: "first_line (Content (two_parts ! 0)) = Some header10"
    by (simp add: two_parts_def first_line_part0)
  have same: "\<forall>item \<in> set (tl two_parts). take (length header10) (Content item) = header10"
    by (simp add: two_parts_def part1_def header10_def)
  have range: "(0::int) \<le> 95" "(0::int) < 20" "95 + 20 \<le> rd_total_size two_parts_reader"
    "nat 20 \<le> length (replicate 20 (CHR ''.''))"
    by (simp_all add: two_parts_reader_def make_Reader_def)
  have idx: "0 = upper_bound (rd_cumulativeSize two_parts_reader) 95"
    by (simp add: two_parts_reader_def make_Reader_def upper_bound_def)
  have bytes: "take (nat 20) (drop (nat 95) (elided (length header10) two_parts)) =
      ''vwxyzABCDEFGHIJKLMNO''"
    by (simp add: elided_def logical_parts_def two_parts_def part0_def part1_def header10_def)
  from read_returns_elided_bytes
    [OF special_data_star matching_data_star [symmetric] n2 two_parts_distinct nr f2 same
        MakeReaderPtr_two_parts range idx]
  have general: "\<exists>reqs.
        ReadBytesInFile two_parts_store (two_parts_reader\<lparr>rd_offset := 95\<rparr>)
          (replicate 20 (CHR ''.'')) 20 =
          ((two_parts_reader\<lparr>rd_offset := 115\<rparr>, ''vwxyzABCDEFGHIJKLMNO'', reqs),
           ReadSuccess 0)
        \<and> hd reqs = ReqDownload ''bucket'' ''data-0.txt'' 95 5
        \<and> (\<forall>q \<in> set (tl reqs). \<exists>name len. q = ReqDownload ''bucket'' name 10 len)"
    unfolding bytes
    by (simp add: two_parts_reader_def make_Reader_def two_parts_def header10_def) blast
  from read_across_boundary general show ?thesis ..
qed

end
